theory Spec2Isabelle
  imports Main "HOL-Library.Word" "HOL-Library.Sublist"
begin

section \<open>JavaScript strings and the tokenizer regex\<close>

text \<open>
  A JavaScript string is a sequence of UTF-16 code units. The regular expression
  \<^verbatim>\<open>/(\w+|[^\w\s]+|\s+)/g\<close> carries no \<^verbatim>\<open>u\<close> flag, so it classifies code units:
  \<^verbatim>\<open>\w\<close> is \<^verbatim>\<open>[A-Za-z0-9_]\<close>, \<^verbatim>\<open>\s\<close> is the ECMAScript white space and line
  terminator set, and \<^verbatim>\<open>[^\w\s]\<close> is everything else.
\<close>

type_synonym jschar = "16 word"
type_synonym jsstring = "jschar list"

text \<open>Latin-1 literals: the code unit of a character below 256 is its code.\<close>

definition js :: "string \<Rightarrow> jsstring" where
  "js s = map (\<lambda>c. of_nat (of_char c)) s"

datatype charClass = WordChar | OtherChar | SpaceChar

definition isWordChar :: "jschar \<Rightarrow> bool" where
  "isWordChar c \<longleftrightarrow>
     (0x30 \<le> c \<and> c \<le> 0x39) \<or> (0x41 \<le> c \<and> c \<le> 0x5A) \<or> c = 0x5F \<or> (0x61 \<le> c \<and> c \<le> 0x7A)"

definition isSpaceChar :: "jschar \<Rightarrow> bool" where
  "isSpaceChar c \<longleftrightarrow>
     (0x09 \<le> c \<and> c \<le> 0x0D) \<or> c = 0x20 \<or> c = 0xA0 \<or> c = 0x1680 \<or>
     (0x2000 \<le> c \<and> c \<le> 0x200A) \<or> c = 0x2028 \<or> c = 0x2029 \<or> c = 0x202F \<or>
     c = 0x205F \<or> c = 0x3000 \<or> c = 0xFEFF"

definition classOf :: "jschar \<Rightarrow> charClass" where
  "classOf c = (if isWordChar c then WordChar else if isSpaceChar c then SpaceChar else OtherChar)"

text \<open>
  \<^verbatim>\<open>chunk.match(/(\w+|[^\w\s]+|\s+)/g) || []\<close>, and equally the
  \<^verbatim>\<open>while ((match = dmpRegex.exec(coarseText)) !== null)\<close> loop: every code unit lies in
  exactly one of the three classes, each alternative is greedy, so the next match always
  starts at \<^verbatim>\<open>lastIndex\<close> and is the longest run of code units of the class of the first.
\<close>

function dmpRegexMatch :: "jsstring \<Rightarrow> jsstring list" where
  "dmpRegexMatch [] = []"
| "dmpRegexMatch (c # cs) =
     (c # takeWhile (\<lambda>d. classOf d = classOf c) cs)
       # dmpRegexMatch (dropWhile (\<lambda>d. classOf d = classOf c) cs)"
  by pat_completeness auto
termination
  by (relation "measure length") (simp_all add: length_dropWhile_le less_Suc_eq_le)

section \<open>The token map of \<^verbatim>\<open>verifyTokenMapStrategy\<close>\<close>

text \<open>
  The host document is reached through range handles of an opaque type \<open>'r\<close>. What the host
  answers is a parameter of the model: \<open>coarseRanges\<close> is the loaded result of
  \<^verbatim>\<open>paragraph.getTextRanges([" "], false)\<close> (each handle with its text), and
  \<open>search coarseRange tokenText\<close> is the loaded \<^verbatim>\<open>items\<close> of
  \<^verbatim>\<open>coarseRange.search(tokenText, { matchCase: true })\<close>.
\<close>

datatype error =
    TokenMappingFailed jsstring   \<comment> \<open>\<^verbatim>\<open>Token mapping failed for "${proxy.text}"\<close>\<close>
  | MapLookupFailed               \<comment> \<open>\<^verbatim>\<open>Map lookup failed: Token mismatch.\<close>\<close>
  | HostRejected                  \<comment> \<open>a rejected \<^verbatim>\<open>context.sync()\<close>\<close>
  | ChunkNotFound jsstring        \<comment> \<open>the search replay lost a chunk\<close>

record 'r searchProxy =
  proxyText :: jsstring
  proxyResults :: "'r list"
  proxyCoarseText :: jsstring

record 'r fineToken =
  tok_text :: jsstring
  tok_range :: 'r
  tok_index :: nat

text \<open>Step 2, "Queue all searches": one proxy per non-empty regex match of each coarse range.\<close>

definition queueSearches ::
  "('r \<Rightarrow> jsstring \<Rightarrow> 'r list) \<Rightarrow> ('r \<times> jsstring) list \<Rightarrow> 'r searchProxy list" where
  "queueSearches search coarseRanges =
     concat (map (\<lambda>(coarseRange, coarseText).
               map (\<lambda>tokenText. \<lparr>proxyText = tokenText,
                                 proxyResults = search coarseRange tokenText,
                                 proxyCoarseText = coarseText\<rparr>)
                   (filter (\<lambda>tokenText. length tokenText \<noteq> 0) (dmpRegexMatch coarseText)))
             coarseRanges)"

text \<open>
  Step 3, "Process results": the first proxy without a match throws; otherwise the first match
  becomes the token's range. \<open>fineTokens\<close> is the array the loop pushes to.
\<close>

fun processResults ::
  "'r searchProxy list \<Rightarrow> (jsstring \<times> 'r) list \<Rightarrow> error + (jsstring \<times> 'r) list" where
  "processResults [] fineTokens = Inr fineTokens"
| "processResults (proxy # rest) fineTokens =
     (if length (proxyResults proxy) > 0
      then processResults rest (fineTokens @ [(proxyText proxy, proxyResults proxy ! 0)])
      else Inl (TokenMappingFailed (proxyText proxy)))"

text \<open>\<^verbatim>\<open>fineTokens.forEach((t, i) => t.index = i)\<close>\<close>

definition assignIndex :: "(jsstring \<times> 'r) list \<Rightarrow> 'r fineToken list" where
  "assignIndex fineTokens =
     map (\<lambda>(i, (t, r)). \<lparr>tok_text = t, tok_range = r, tok_index = i\<rparr>) (enumerate 0 fineTokens)"

definition buildTokenMap ::
  "('r \<Rightarrow> jsstring \<Rightarrow> 'r list) \<Rightarrow> ('r \<times> jsstring) list \<Rightarrow> error + 'r fineToken list" where
  "buildTokenMap search coarseRanges =
     (case processResults (queueSearches search coarseRanges) [] of
        Inl e \<Rightarrow> Inl e
      | Inr fineTokens \<Rightarrow> Inr (assignIndex fineTokens))"

subsection \<open>\<^verbatim>\<open>ParagraphBlock.tokenize\<close>\<close>

record 'r paragraphBlock =
  blockTokens :: "'r fineToken list"
  blockText :: jsstring

text \<open>The second loop of \<^verbatim>\<open>tokenize\<close>, from index \<open>i\<close> on, over the loaded ranges.\<close>

fun tokenizeLoop :: "nat \<Rightarrow> ('r \<times> jsstring) list \<Rightarrow> 'r paragraphBlock \<Rightarrow> 'r paragraphBlock" where
  "tokenizeLoop i [] b = b"
| "tokenizeLoop i ((r, t) # items) b =
     tokenizeLoop (Suc i) items
       \<lparr>blockTokens = blockTokens b @ [\<lparr>tok_text = t, tok_range = r, tok_index = i\<rparr>],
        blockText = blockText b @ t\<rparr>"

definition tokenize :: "('r \<times> jsstring) list \<Rightarrow> 'r paragraphBlock" where
  "tokenize tokenRanges = tokenizeLoop 0 tokenRanges \<lparr>blockTokens = [], blockText = []\<rparr>"

section \<open>The planner\<close>

type_synonym diffOp = "int \<times> jsstring"

subsection \<open>Pass 1: delete targets\<close>

text \<open>
  The \<^verbatim>\<open>for (let i = 0; i < count; i++)\<close> loop of a Delete op, \<open>count\<close> iterations left; the state
  is \<open>(deleteTargets, tokenIndex)\<close>.
\<close>

fun deleteLoop ::
  "nat \<Rightarrow> 'r fineToken list \<Rightarrow> 'r fineToken list \<times> nat \<Rightarrow> 'r fineToken list \<times> nat" where
  "deleteLoop 0 fineTokens (deleteTargets, tokenIndex) = (deleteTargets, tokenIndex)"
| "deleteLoop (Suc n) fineTokens (deleteTargets, tokenIndex) =
     (if tokenIndex < length fineTokens
      then deleteLoop n fineTokens (deleteTargets @ [fineTokens ! tokenIndex], Suc tokenIndex)
      else deleteLoop n fineTokens (deleteTargets, tokenIndex))"

text \<open>One iteration of \<^verbatim>\<open>for (const [op, chunk] of diffs)\<close> in Pass 1.\<close>

fun pass1Step ::
  "'r fineToken list \<Rightarrow> diffOp \<Rightarrow> 'r fineToken list \<times> nat \<Rightarrow> 'r fineToken list \<times> nat" where
  "pass1Step fineTokens (op, chunk) (deleteTargets, tokenIndex) =
     (if op = 0 then (deleteTargets, tokenIndex + length (dmpRegexMatch chunk))
      else if op = -1
      then deleteLoop (length (dmpRegexMatch chunk)) fineTokens (deleteTargets, tokenIndex)
      else (deleteTargets, tokenIndex))"

fun pass1Loop ::
  "diffOp list \<Rightarrow> 'r fineToken list \<Rightarrow> 'r fineToken list \<times> nat \<Rightarrow> 'r fineToken list \<times> nat" where
  "pass1Loop [] fineTokens st = st"
| "pass1Loop (d # diffs) fineTokens st = pass1Loop diffs fineTokens (pass1Step fineTokens d st)"

definition pass1 :: "diffOp list \<Rightarrow> 'r fineToken list \<Rightarrow> 'r fineToken list \<times> nat" where
  "pass1 diffs fineTokens = pass1Loop diffs fineTokens ([], 0)"

subsection \<open>Pass 2: insert operations\<close>

datatype insertLocation = LocBefore | LocAfter | LocStart | LocEnd | LocReplace

record 'r insertOp =
  op_anchor :: 'r
  op_location :: insertLocation
  op_text :: jsstring

text \<open>
  \<^verbatim>\<open>const deletedIndices = new Set(deleteTargets.map(t => t.index));\<close>
  \<^verbatim>\<open>const tokensAfterDeletes = fineTokens.filter(t => !deletedIndices.has(t.index));\<close>
\<close>

definition tokensAfterDeletes :: "'r fineToken list \<Rightarrow> 'r fineToken list \<Rightarrow> 'r fineToken list" where
  "tokensAfterDeletes fineTokens deleteTargets =
     filter (\<lambda>t. tok_index t \<notin> set (map tok_index deleteTargets)) fineTokens"

text \<open>
  The \<^verbatim>\<open>while\<close> loop of an Equal op; the state is \<open>(currentTokenIdx, lastAnchorRange)\<close>,
  \<^verbatim>\<open>null\<close> being \<open>None\<close>. \<^verbatim>\<open>textToConsume.startsWith(tokenText)\<close> is \<open>prefix\<close>.
\<close>

function consumeEqual ::
  "jsstring \<Rightarrow> 'r fineToken list \<Rightarrow> nat \<times> 'r option \<Rightarrow> error + nat \<times> 'r option" where
  "consumeEqual textToConsume toks (currentTokenIdx, lastAnchorRange) =
     (if length textToConsume > 0 \<and> currentTokenIdx < length toks
      then (if prefix (tok_text (toks ! currentTokenIdx)) textToConsume
            then consumeEqual (drop (length (tok_text (toks ! currentTokenIdx))) textToConsume) toks
                   (Suc currentTokenIdx, Some (tok_range (toks ! currentTokenIdx)))
            else Inl MapLookupFailed)
      else Inr (currentTokenIdx, lastAnchorRange))"
  by pat_completeness auto
termination
  by (relation "measure (\<lambda>(t, toks, i, a). length toks - i)") auto

declare consumeEqual.simps [simp del]

text \<open>
  The Pass 2 loop over the diffs; the state is \<open>(currentTokenIdx, lastAnchorRange, insertOps)\<close>
  and \<open>paragraphStart\<close> is the handle \<^verbatim>\<open>paragraph.getRange(Word.InsertLocation.start)\<close>.
\<close>

fun pass2Loop ::
  "diffOp list \<Rightarrow> 'r fineToken list \<Rightarrow> 'r \<Rightarrow> nat \<times> 'r option \<times> 'r insertOp list
     \<Rightarrow> error + nat \<times> 'r option \<times> 'r insertOp list" where
  "pass2Loop [] toks paragraphStart st = Inr st"
| "pass2Loop ((op, chunk) # diffs) toks paragraphStart (currentTokenIdx, lastAnchorRange, insertOps) =
     (if op = 0
      then (case consumeEqual chunk toks (currentTokenIdx, lastAnchorRange) of
              Inl e \<Rightarrow> Inl e
            | Inr (idx, anchor) \<Rightarrow> pass2Loop diffs toks paragraphStart (idx, anchor, insertOps))
      else if op = 1
      then (case lastAnchorRange of
              Some r \<Rightarrow>
                pass2Loop diffs toks paragraphStart
                  (currentTokenIdx, lastAnchorRange,
                   insertOps @ [\<lparr>op_anchor = r, op_location = LocAfter, op_text = chunk\<rparr>])
            | None \<Rightarrow>
                pass2Loop diffs toks paragraphStart
                  (currentTokenIdx, lastAnchorRange,
                   insertOps @ [\<lparr>op_anchor = paragraphStart, op_location = LocBefore, op_text = chunk\<rparr>]))
      else pass2Loop diffs toks paragraphStart (currentTokenIdx, lastAnchorRange, insertOps))"

definition pass2 ::
  "diffOp list \<Rightarrow> 'r fineToken list \<Rightarrow> 'r fineToken list \<Rightarrow> 'r \<Rightarrow> error + 'r insertOp list" where
  "pass2 diffs fineTokens deleteTargets paragraphStart =
     (case pass2Loop diffs (tokensAfterDeletes fineTokens deleteTargets) paragraphStart (0, None, []) of
        Inl e \<Rightarrow> Inl e
      | Inr (idx, anchor, insertOps) \<Rightarrow> Inr insertOps)"

section \<open>The execution phase\<close>

datatype changeTrackingMode = TrackingOff | TrackAll | TrackMineOnly

text \<open>
  The mutations \<^verbatim>\<open>verifyTokenMapStrategy\<close> queues against the document: those of the execution
  phase, and \<^verbatim>\<open>paragraph.clear()\<close> and \<^verbatim>\<open>paragraph.insertText\<close> of its \<^verbatim>\<open>catch\<close> block.
\<close>

datatype 'r hostOp =
    SetChangeTrackingMode changeTrackingMode
  | RangeDelete 'r
  | RangeInsertText 'r jsstring insertLocation
  | ParagraphClear
  | ParagraphInsertText jsstring insertLocation

text \<open>
  \<^verbatim>\<open>Array.prototype.sort\<close> with a comparator is a stable sort; an element goes before the first
  one it does not compare greater than.
\<close>

fun sortInsert :: "('a \<Rightarrow> 'a \<Rightarrow> int) \<Rightarrow> 'a \<Rightarrow> 'a list \<Rightarrow> 'a list" where
  "sortInsert cmp x [] = [x]"
| "sortInsert cmp x (y # ys) = (if cmp x y \<le> 0 then x # y # ys else y # sortInsert cmp x ys)"

fun arraySort :: "('a \<Rightarrow> 'a \<Rightarrow> int) \<Rightarrow> 'a list \<Rightarrow> 'a list" where
  "arraySort cmp [] = []"
| "arraySort cmp (x # xs) = sortInsert cmp x (arraySort cmp xs)"

text \<open>\<^verbatim>\<open>(a, b) => b.index - a.index\<close>\<close>

definition byIndexDescending :: "'r fineToken \<Rightarrow> 'r fineToken \<Rightarrow> int" where
  "byIndexDescending a b = int (tok_index b) - int (tok_index a)"

text \<open>
  Steps 1 to 4 of the execution phase, in queue order; \<open>hasCTM\<close> is the truth of
  \<^verbatim>\<open>Word.ChangeTrackingMode\<close> on this host.
\<close>

definition executionPhase :: "bool \<Rightarrow> 'r fineToken list \<Rightarrow> 'r insertOp list \<Rightarrow> 'r hostOp list" where
  "executionPhase hasCTM deleteTargets insertOps =
     (if hasCTM then [SetChangeTrackingMode TrackAll] else [])
     @ map (\<lambda>token. RangeDelete (tok_range token)) (arraySort byIndexDescending deleteTargets)
     @ map (\<lambda>op. RangeInsertText (op_anchor op) (op_text op) (op_location op)) insertOps
     @ (if hasCTM then [SetChangeTrackingMode TrackingOff] else [])"

text \<open>
  The \<^verbatim>\<open>try\<close> block of \<^verbatim>\<open>verifyTokenMapStrategy\<close> from the token map to the queued batch
  that SYNC 4 commits. A \<^verbatim>\<open>throw\<close> leaves the block with nothing queued.
\<close>

definition planTokenMap ::
  "bool \<Rightarrow> ('r \<Rightarrow> jsstring \<Rightarrow> 'r list) \<Rightarrow> ('r \<times> jsstring) list \<Rightarrow> 'r \<Rightarrow> diffOp list
     \<Rightarrow> error + 'r hostOp list" where
  "planTokenMap hasCTM search coarseRanges paragraphStart diffs =
     (case buildTokenMap search coarseRanges of
        Inl e \<Rightarrow> Inl e
      | Inr fineTokens \<Rightarrow>
          (let deleteTargets = fst (pass1 diffs fineTokens) in
           case pass2 diffs fineTokens deleteTargets paragraphStart of
             Inl e \<Rightarrow> Inl e
           | Inr insertOps \<Rightarrow> Inr (executionPhase hasCTM deleteTargets insertOps)))"

section \<open>\<^verbatim>\<open>handleReviewSelection\<close>\<close>

text \<open>\<^verbatim>\<open>String.prototype.trim\<close> strips white space and line terminators from both ends.\<close>

definition jsTrim :: "jsstring \<Rightarrow> jsstring" where
  "jsTrim s = rev (dropWhile isSpaceChar (rev (dropWhile isSpaceChar s)))"

datatype strategy = TokenMapStrategy | SentenceDiffStrategy

text \<open>
  What an invocation asks of the outside world, in the order it asks: the load of the
  selection's text in the first \<^verbatim>\<open>Word.run\<close>, the request to the LLM, and in the second
  \<^verbatim>\<open>Word.run\<close> the fresh selection handle, the assignment to
  \<^verbatim>\<open>context.document.changeTrackingMode\<close> and the call of the diff strategy on the selection.
  The last two write to the document.
\<close>

datatype effect =
    LoadSelectionText
  | SendPromptToLLM jsstring jsstring
  | GetSelection
  | QueueChangeTrackingMode changeTrackingMode
  | ApplyStrategy strategy jsstring jsstring

fun isMutation :: "effect \<Rightarrow> bool" where
  "isMutation (QueueChangeTrackingMode m) = True"
| "isMutation (ApplyStrategy s original revised) = True"
| "isMutation e = False"

text \<open>The module state: the flag \<^verbatim>\<open>isProcessing\<close>, the two settings the function reads, the host's
  \<^verbatim>\<open>Word.ChangeTrackingMode\<close> and the effects so far.\<close>

record world =
  isProcessing :: bool
  trackChangesEnabled :: bool
  lineDiffEnabled :: bool
  hasChangeTrackingMode :: bool
  effects :: "effect list"

datatype reviewError =
    NoSelection          \<comment> \<open>\<^verbatim>\<open>Please select some text first.\<close>\<close>
  | SelectionFailed      \<comment> \<open>the first \<^verbatim>\<open>Word.run\<close> rejected\<close>
  | LLMFailed            \<comment> \<open>the promise of \<^verbatim>\<open>sendPromptToLLM\<close> rejected\<close>
  | ResponseUndefined    \<comment> \<open>\<^verbatim>\<open>response.substring\<close> on a missing \<^verbatim>\<open>data.response\<close>\<close>
  | StrategyFailed       \<comment> \<open>the second \<^verbatim>\<open>Word.run\<close> rejected\<close>

datatype outcome =
    Busy                 \<comment> \<open>\<^verbatim>\<open>Already processing a request\<close>\<close>
  | NoPrompt             \<comment> \<open>\<^verbatim>\<open>Please enter a prompt\<close>\<close>
  | Caught reviewError   \<comment> \<open>the \<^verbatim>\<open>catch\<close> block logged the error\<close>
  | Applied              \<comment> \<open>\<^verbatim>\<open>Changes applied successfully\<close>\<close>

text \<open>
  An invocation is suspended at an \<^verbatim>\<open>await\<close> or has returned. \<open>Entry\<close> is the click not yet
  handled; \<open>AwaitSelection\<close> carries \<^verbatim>\<open>promptText\<close>, \<open>AwaitLLM\<close> carries \<^verbatim>\<open>selectionText\<close>.
\<close>

datatype controlPoint =
    Entry
  | AwaitSelection jsstring
  | AwaitLLM jsstring
  | AwaitApply
  | Returned outcome

text \<open>What wakes an invocation: the click with the text area's value, or the settled promise.\<close>

datatype event =
    Click jsstring
  | SelectionLoaded jsstring
  | SelectionRejected
  | LLMResolved "jsstring option"
  | LLMRejected
  | StrategyResolved
  | StrategyRejected

text \<open>
  The code between two suspension points runs without interruption. \<open>resume\<close> is that code:
  from the click to the first \<^verbatim>\<open>await\<close>, and from each settled promise to the next
  \<^verbatim>\<open>await\<close> or, through \<^verbatim>\<open>catch\<close> and \<^verbatim>\<open>finally\<close>, to the return. An event that is not the
  one the invocation waits for is not delivered to it.
\<close>

fun resume :: "event \<Rightarrow> controlPoint \<Rightarrow> world \<Rightarrow> controlPoint \<times> world" where
  "resume (Click v) Entry w =
     (if isProcessing w then (Returned Busy, w)
      else if jsTrim v = [] then (Returned NoPrompt, w)
      else (AwaitSelection (jsTrim v),
            w\<lparr>isProcessing := True, effects := effects w @ [LoadSelectionText]\<rparr>))"
| "resume (SelectionLoaded selectionText) (AwaitSelection promptText) w =
     (if selectionText = [] \<or> jsTrim selectionText = []
      then (Returned (Caught NoSelection), w\<lparr>isProcessing := False\<rparr>)
      else (AwaitLLM selectionText,
            w\<lparr>effects := effects w @ [SendPromptToLLM promptText selectionText]\<rparr>))"
| "resume SelectionRejected (AwaitSelection promptText) w =
     (Returned (Caught SelectionFailed), w\<lparr>isProcessing := False\<rparr>)"
| "resume (LLMResolved (Some response)) (AwaitLLM selectionText) w =
     (AwaitApply,
      w\<lparr>effects := effects w @ [GetSelection]
           @ (if hasChangeTrackingMode w
              then [QueueChangeTrackingMode (if trackChangesEnabled w then TrackAll else TrackingOff)]
              else [])
           @ [ApplyStrategy (if lineDiffEnabled w then SentenceDiffStrategy else TokenMapStrategy)
                selectionText response]\<rparr>)"
| "resume (LLMResolved None) (AwaitLLM selectionText) w =
     (Returned (Caught ResponseUndefined), w\<lparr>isProcessing := False\<rparr>)"
| "resume LLMRejected (AwaitLLM selectionText) w =
     (Returned (Caught LLMFailed), w\<lparr>isProcessing := False\<rparr>)"
| "resume StrategyResolved AwaitApply w = (Returned Applied, w\<lparr>isProcessing := False\<rparr>)"
| "resume StrategyRejected AwaitApply w =
     (Returned (Caught StrategyFailed), w\<lparr>isProcessing := False\<rparr>)"
| "resume ev pc w = (pc, w)"

text \<open>One invocation on its own: the click, then the promises as they settle.\<close>

fun settle :: "event list \<Rightarrow> controlPoint \<times> world \<Rightarrow> controlPoint \<times> world" where
  "settle [] st = st"
| "settle (ev # evs) (pc, w) = settle evs (resume ev pc w)"

definition handleReviewSelection :: "jsstring \<Rightarrow> event list \<Rightarrow> world \<Rightarrow> controlPoint \<times> world" where
  "handleReviewSelection promptValue settled w = settle settled (resume (Click promptValue) Entry w)"

text \<open>
  Several clicks: the invocations share the world, and at every step one of them is resumed
  by an event. All start at \<open>Entry\<close> with the flag down.
\<close>

fun active :: "controlPoint \<Rightarrow> bool" where
  "active (AwaitSelection promptText) = True"
| "active (AwaitLLM selectionText) = True"
| "active AwaitApply = True"
| "active pc = False"

inductive reachable :: "world \<times> controlPoint list \<Rightarrow> bool" where
  start: "\<not> isProcessing w \<Longrightarrow> reachable (w, replicate n Entry)"
| step: "reachable (w, pcs) \<Longrightarrow> i < length pcs \<Longrightarrow> resume ev (pcs ! i) w = (pc', w')
           \<Longrightarrow> reachable (w', pcs[i := pc'])"

section \<open>The differ and the fallback\<close>

subsection \<open>\<^verbatim>\<open>computeDiff\<close>\<close>

text \<open>
  Modelled from the spec: \<^verbatim>\<open>computeDiff\<close> lives in the library \<^verbatim>\<open>office-word-diff\<close>, which was
  split off this repository and is not among its sources; only its callers are. The spec's
  Text Differ computes an edit script over atomic tokens (runs of word characters, of other
  characters, of white space), keeps the total length of the text that is not Equal minimal,
  prefers an Equal run as early as it can, and gives the script as runs \<open>(opCode, text)\<close> with
  \<open>opCode\<close> \<open>-1\<close> (delete), \<open>0\<close> (equal) or \<open>1\<close> (insert).
\<close>

text \<open>Modelled from the spec: the total length of the text of a script that is not Equal, the
  quantity the Text Differ of the absent library keeps minimal.\<close>

definition editCost :: "diffOp list \<Rightarrow> nat" where
  "editCost ds = sum_list (map (\<lambda>(op, t). if op = 0 then 0 else length t) ds)"

text \<open>Modelled from the spec: the token-level script of the absent \<^verbatim>\<open>computeDiff\<close>. Equal heads
  are kept, otherwise the cheaper of deleting the left head and inserting the right head is
  taken, the deletion on a tie.\<close>

fun diffTokens :: "jsstring list \<Rightarrow> jsstring list \<Rightarrow> diffOp list" where
  "diffTokens [] ys = map (\<lambda>t. (1, t)) ys"
| "diffTokens (x # xs) [] = map (\<lambda>t. (-1, t)) (x # xs)"
| "diffTokens (x # xs) (y # ys) =
     (if x = y then (0, x) # diffTokens xs ys
      else if editCost ((-1, x) # diffTokens xs (y # ys)) \<le> editCost ((1, y) # diffTokens (x # xs) ys)
      then (-1, x) # diffTokens xs (y # ys)
      else (1, y) # diffTokens (x # xs) ys)"

text \<open>Modelled from the spec: the runs of the absent \<^verbatim>\<open>computeDiff\<close>; neighbouring ops of one
  kind become one op.\<close>

fun mergeOps :: "diffOp list \<Rightarrow> diffOp list" where
  "mergeOps [] = []"
| "mergeOps [d] = [d]"
| "mergeOps ((op1, t1) # (op2, t2) # ds) =
     (if op1 = op2 then mergeOps ((op1, t1 @ t2) # ds) else (op1, t1) # mergeOps ((op2, t2) # ds))"

text \<open>Modelled from the spec: the absent differ over a tokenization; the absent \<^verbatim>\<open>computeDiff\<close>
  is the differ over the regex's tokens.\<close>

definition computeDiffWith :: "(jsstring \<Rightarrow> jsstring list) \<Rightarrow> jsstring \<Rightarrow> jsstring \<Rightarrow> diffOp list" where
  "computeDiffWith tokens original revised = mergeOps (diffTokens (tokens original) (tokens revised))"

text \<open>Modelled from the spec: \<^verbatim>\<open>computeDiff(original, revised)\<close> of the absent library
  \<^verbatim>\<open>office-word-diff\<close>.\<close>

definition computeDiff :: "jsstring \<Rightarrow> jsstring \<Rightarrow> diffOp list" where
  "computeDiff original revised = computeDiffWith dmpRegexMatch original revised"

text \<open>The two readings of a script in the spec's data model: its Equal and Delete text, and
  its Equal and Insert text, each in order.\<close>

definition originalOf :: "diffOp list \<Rightarrow> jsstring" where
  "originalOf ds = concat (map snd (filter (\<lambda>(op, t). op = 0 \<or> op = -1) ds))"

definition revisedOf :: "diffOp list \<Rightarrow> jsstring" where
  "revisedOf ds = concat (map snd (filter (\<lambda>(op, t). op = 0 \<or> op = 1) ds))"

subsection \<open>The whole of \<^verbatim>\<open>verifyTokenMapStrategy\<close>\<close>

text \<open>
  How a run ends: by the early \<^verbatim>\<open>return\<close> on a host without WordApi 1.4, by running to its
  end, or by an error that leaves the function; each with the document as it then is.
\<close>

datatype 'd ended = Skipped 'd | Completed 'd | Threw error 'd

text \<open>
  The host, as the function meets it. The document is a value of a type \<open>'d\<close>.
  \<^item> \<open>wordApi14\<close> is \<^verbatim>\<open>Office.context.requirements.isSetSupported('WordApi', '1.4')\<close>;
  \<^item> \<open>changeTrackingModeDefined\<close> is the truth of \<^verbatim>\<open>Word.ChangeTrackingMode\<close>;
  \<^item> \<open>insertParagraphs\<close> is SYNC 1, which commits the paragraph holding \<^verbatim>\<open>text1\<close> and its
    heading: the document afterwards, and the rejection if there was one;
  \<^item> \<open>getTextRanges\<close> is SYNC 2: the loaded coarse ranges, or the rejection;
  \<^item> \<open>searchItems\<close> is SYNC 3: the loaded items of every queued search, or the rejection;
  \<^item> \<open>getRangeStart\<close> is the handle \<^verbatim>\<open>paragraph.getRange(Word.InsertLocation.start)\<close>;
  \<^item> \<open>sync\<close> commits queued mutations in queue order: the document afterwards, and the
    rejection if there was one, in which case part of the queue may have been applied.
\<close>

record ('r, 'd) host =
  wordApi14 :: bool
  changeTrackingModeDefined :: bool
  insertParagraphs :: "jsstring \<Rightarrow> 'd \<Rightarrow> error option \<times> 'd"
  getTextRanges :: "'d \<Rightarrow> error + ('r \<times> jsstring) list"
  searchItems :: "'d \<Rightarrow> error + ('r \<Rightarrow> jsstring \<Rightarrow> 'r list)"
  getRangeStart :: 'r
  sync :: "'r hostOp list \<Rightarrow> 'd \<Rightarrow> error option \<times> 'd"

text \<open>
  The \<^verbatim>\<open>catch\<close> block: the reset is queued and committed, then the sentence diff strategy is
  awaited. \<^verbatim>\<open>applySentenceDiffStrategy\<close> is imported from the library \<^verbatim>\<open>office-word-diff\<close>, which
  is not among the sources, so it is a parameter, \<open>secondary\<close>: the document it leaves, and
  the error it throws if it throws. An error of the block's own \<^verbatim>\<open>context.sync()\<close> or of the
  strategy leaves the function; nothing catches it.
\<close>

definition catchBlock ::
  "('r, 'd) host \<Rightarrow> ('d \<Rightarrow> jsstring \<Rightarrow> jsstring \<Rightarrow> error option \<times> 'd) \<Rightarrow> jsstring \<Rightarrow> jsstring \<Rightarrow> 'd
     \<Rightarrow> 'd ended" where
  "catchBlock h secondary text1 text2 d =
     (case sync h [ParagraphClear, ParagraphInsertText text1 LocStart] d of
        (Some e, d') \<Rightarrow> Threw e d'
      | (None, d') \<Rightarrow>
          (case secondary d' text1 text2 of
             (Some e, d'') \<Rightarrow> Threw e d''
           | (None, d'') \<Rightarrow> Completed d''))"

text \<open>
  The function. \<^verbatim>\<open>text1\<close> and \<^verbatim>\<open>text2\<close>, two constants of the function, are parameters, and so
  is \<^verbatim>\<open>computeDiff\<close> of the same library, \<open>differ\<close>: the diff, or the error it throws. SYNC 1
  is before the \<^verbatim>\<open>try\<close>; every error from there to SYNC 4 reaches the \<^verbatim>\<open>catch\<close> block. Nothing
  is queued against the document between SYNC 1 and the execution phase, so only a rejected
  SYNC 4 hands the block a changed document.
\<close>

definition verifyTokenMapStrategy ::
  "('r, 'd) host \<Rightarrow> (jsstring \<Rightarrow> jsstring \<Rightarrow> error + diffOp list)
     \<Rightarrow> ('d \<Rightarrow> jsstring \<Rightarrow> jsstring \<Rightarrow> error option \<times> 'd) \<Rightarrow> jsstring \<Rightarrow> jsstring \<Rightarrow> 'd \<Rightarrow> 'd ended" where
  "verifyTokenMapStrategy h differ secondary text1 text2 d =
     (if \<not> wordApi14 h then Skipped d
      else
        (case insertParagraphs h text1 d of
           (Some e, d0) \<Rightarrow> Threw e d0
         | (None, d0) \<Rightarrow>
             (case differ text1 text2 of
                Inl e \<Rightarrow> catchBlock h secondary text1 text2 d0
              | Inr diffs \<Rightarrow>
                  (case getTextRanges h d0 of
                     Inl e \<Rightarrow> catchBlock h secondary text1 text2 d0
                   | Inr coarseRanges \<Rightarrow>
                       (case searchItems h d0 of
                          Inl e \<Rightarrow> catchBlock h secondary text1 text2 d0
                        | Inr search \<Rightarrow>
                            (case planTokenMap (changeTrackingModeDefined h) search coarseRanges
                                    (getRangeStart h) diffs of
                               Inl e \<Rightarrow> catchBlock h secondary text1 text2 d0
                             | Inr batch \<Rightarrow>
                                 (case sync h batch d0 of
                                    (None, d1) \<Rightarrow> Completed d1
                                  | (Some e, d1) \<Rightarrow> catchBlock h secondary text1 text2 d1)))))))"

section \<open>A host over a flat text\<close>

text \<open>
  A host to run the code on: one paragraph of plain text. It has the surface the code
  uses: the coarse ranges split at the space, the case-sensitive search inside a range that
  gives every match in document order, insertion relative to a range, deletion, the
  paragraph's \<^verbatim>\<open>clear\<close> and \<^verbatim>\<open>insertText\<close>, and the change tracking mode. A range handle is an
  offset and a length in the paragraph's text as it was laid down; a handle stays on the
  code units it was obtained for, whatever is inserted or deleted around them.
\<close>

type_synonym flatRange = "nat \<times> nat"




text \<open>The place of text inserted relative to a range: the range's start or its end.\<close>

fun insertPosition :: "flatRange \<Rightarrow> insertLocation \<Rightarrow> nat" where
  "insertPosition (k, n) LocBefore = k"
| "insertPosition (k, n) LocStart = k"
| "insertPosition (k, n) LocReplace = k"
| "insertPosition (k, n) LocAfter = k + n"
| "insertPosition (k, n) LocEnd = k + n"

text \<open>
  \<^verbatim>\<open>getTextRanges([" "], false)\<close>: the text is cut after each run of spaces, the spaces staying
  with the range before them.
\<close>

function rangesFrom :: "nat \<Rightarrow> jsstring \<Rightarrow> (flatRange \<times> jsstring) list" where
  "rangesFrom k [] = []"
| "rangesFrom k (c # cs) =
     (let piece = takeWhile (\<lambda>d. d \<noteq> 0x20) (c # cs)
                  @ takeWhile (\<lambda>d. d = 0x20) (dropWhile (\<lambda>d. d \<noteq> 0x20) (c # cs))
      in ((k, length piece), piece) # rangesFrom (k + length piece) (drop (length piece) (c # cs)))"
  by pat_completeness auto
termination
proof (relation "measure (\<lambda>(k, s). length s)")
  show "wf (measure (\<lambda>(k, s). length s))" by simp
next
  fix k :: nat and c :: jschar and cs piece
  assume piece: "piece = takeWhile (\<lambda>d. d \<noteq> 0x20) (c # cs)
                  @ takeWhile (\<lambda>d. d = 0x20) (dropWhile (\<lambda>d. d \<noteq> 0x20) (c # cs))"
  have "0 < length piece"
    unfolding piece by (cases "c = 0x20") simp_all
  then show "((k + length piece, drop (length piece) (c # cs)), (k, c # cs))
      \<in> measure (\<lambda>(k, s). length s)"
    by simp
qed

definition flatTextRanges :: "jsstring \<Rightarrow> (flatRange \<times> jsstring) list" where
  "flatTextRanges s = rangesFrom 0 s"

text \<open>
  \<^verbatim>\<open>range.search(needle, { matchCase: true })\<close>: every place in the range where \<open>needle\<close>
  starts, first to last. No other option is set, so a match need not be a whole word.
\<close>

fun occurrencesFrom :: "jsstring \<Rightarrow> nat \<Rightarrow> jsstring \<Rightarrow> nat list" where
  "occurrencesFrom needle k [] = []"
| "occurrencesFrom needle k (c # cs) =
     (if prefix needle (c # cs) then k # occurrencesFrom needle (Suc k) cs
      else occurrencesFrom needle (Suc k) cs)"

definition flatSearch :: "jsstring \<Rightarrow> flatRange \<Rightarrow> jsstring \<Rightarrow> flatRange list" where
  "flatSearch s r needle =
     map (\<lambda>k. (k, length needle)) (occurrencesFrom needle (fst r) (take (snd r) (drop (fst r) s)))"

text \<open>
  The document: the paragraph's code units in order, each with the offset it had when the
  paragraph was laid down (\<open>None\<close> for text inserted since) and whether it is a tracked
  insertion or a tracked deletion; and the change tracking mode.
\<close>

datatype revision = Plain | TrackedInsertion | TrackedDeletion

type_synonym cell = "jschar \<times> nat option \<times> revision"

record flatDoc =
  cells :: "cell list"
  trackingMode :: changeTrackingMode

definition layDown :: "jsstring \<Rightarrow> cell list" where
  "layDown s = map (\<lambda>(k, c). (c, Some k, Plain)) (enumerate 0 s)"

text \<open>The paragraph's text with every tracked change accepted.\<close>

definition finalText :: "flatDoc \<Rightarrow> jsstring" where
  "finalText d = map fst (filter (\<lambda>(c, origin, mark). mark \<noteq> TrackedDeletion) (cells d))"

text \<open>New text; a tracked insertion unless tracking is off.\<close>

definition typed :: "changeTrackingMode \<Rightarrow> jsstring \<Rightarrow> cell list" where
  "typed mode t = map (\<lambda>c. (c, None, if mode = TrackingOff then Plain else TrackedInsertion)) t"

text \<open>
  Insertion at a place of the text as laid down: before the first code unit that was at
  that offset or later, at the end when there is none. Text inserted earlier at the same
  place stays in front.
\<close>

fun atOrAfter :: "nat \<Rightarrow> cell \<Rightarrow> bool" where
  "atOrAfter p (c, Some k, mark) \<longleftrightarrow> p \<le> k"
| "atOrAfter p (c, None, mark) \<longleftrightarrow> False"

definition insertCells :: "nat \<Rightarrow> cell list \<Rightarrow> cell list \<Rightarrow> cell list" where
  "insertCells p new cs =
     takeWhile (\<lambda>x. \<not> atOrAfter p x) cs @ new @ dropWhile (\<lambda>x. \<not> atOrAfter p x) cs"

text \<open>
  Deletion: with tracking off the code units go; otherwise they stay as tracked deletions,
  except tracked insertions, which go.
\<close>

fun inRange :: "flatRange \<Rightarrow> cell \<Rightarrow> bool" where
  "inRange (k, n) (c, Some g, mark) \<longleftrightarrow> k \<le> g \<and> g < k + n"
| "inRange (k, n) (c, None, mark) \<longleftrightarrow> False"

fun deleteCell :: "changeTrackingMode \<Rightarrow> cell \<Rightarrow> cell list" where
  "deleteCell mode (c, origin, mark) =
     (if mode = TrackingOff \<or> mark = TrackedInsertion then [] else [(c, origin, TrackedDeletion)])"

definition deleteCells :: "changeTrackingMode \<Rightarrow> (cell \<Rightarrow> bool) \<Rightarrow> cell list \<Rightarrow> cell list" where
  "deleteCells mode doomed cs = concat (map (\<lambda>x. if doomed x then deleteCell mode x else [x]) cs)"

text \<open>
  One queued mutation. \<^verbatim>\<open>Paragraph.insertText\<close> takes the locations \<^verbatim>\<open>Replace\<close>, \<^verbatim>\<open>Start\<close> and
  \<^verbatim>\<open>End\<close>; the host rejects the other two.
\<close>

fun flatApply :: "flatRange hostOp \<Rightarrow> flatDoc \<Rightarrow> error + flatDoc" where
  "flatApply (SetChangeTrackingMode mode) d = Inr (d\<lparr>trackingMode := mode\<rparr>)"
| "flatApply (RangeDelete r) d =
     Inr (d\<lparr>cells := deleteCells (trackingMode d) (inRange r) (cells d)\<rparr>)"
| "flatApply (RangeInsertText r t loc) d =
     Inr (d\<lparr>cells := insertCells (insertPosition r loc) (typed (trackingMode d) t)
                        (if loc = LocReplace then deleteCells (trackingMode d) (inRange r) (cells d)
                         else cells d)\<rparr>)"
| "flatApply ParagraphClear d =
     Inr (d\<lparr>cells := deleteCells (trackingMode d) (\<lambda>x. True) (cells d)\<rparr>)"
| "flatApply (ParagraphInsertText t loc) d =
     (if loc = LocStart then Inr (d\<lparr>cells := typed (trackingMode d) t @ cells d\<rparr>)
      else if loc = LocEnd then Inr (d\<lparr>cells := cells d @ typed (trackingMode d) t\<rparr>)
      else if loc = LocReplace
      then Inr (d\<lparr>cells := typed (trackingMode d) t
                          @ deleteCells (trackingMode d) (\<lambda>x. True) (cells d)\<rparr>)
      else Inl HostRejected)"

text \<open>\<^verbatim>\<open>context.sync()\<close>: the queue in order, up to the first mutation the host rejects.\<close>

fun flatSync :: "flatRange hostOp list \<Rightarrow> flatDoc \<Rightarrow> error option \<times> flatDoc" where
  "flatSync [] d = (None, d)"
| "flatSync (op # ops) d =
     (case flatApply op d of
        Inl e \<Rightarrow> (Some e, d)
      | Inr d' \<Rightarrow> flatSync ops d')"

text \<open>
  The host. SYNC 1 lays the paragraph down; the ranges and the searches are those of the
  paragraph's text.
\<close>

definition flatHost :: "(flatRange, flatDoc) host" where
  "flatHost =
     \<lparr>wordApi14 = True,
      changeTrackingModeDefined = True,
      insertParagraphs = (\<lambda>t d. (None, d\<lparr>cells := layDown t\<rparr>)),
      getTextRanges = (\<lambda>d. Inr (flatTextRanges (finalText d))),
      searchItems = (\<lambda>d. Inr (flatSearch (finalText d))),
      getRangeStart = (0, 0),
      sync = flatSync\<rparr>"

section \<open>Invariants used in the proofs\<close>

text \<open>
  Pass 1 keeps the indices of \<open>deleteTargets\<close> strictly ascending and below the cursor, and
  takes its targets from the token table.
\<close>

definition pass1Inv :: "'r fineToken list \<Rightarrow> 'r fineToken list \<times> nat \<Rightarrow> bool" where
  "pass1Inv fineTokens st \<longleftrightarrow>
     sorted_wrt (<) (map tok_index (fst st)) \<and> (\<forall>t\<in>set (fst st). tok_index t < snd st) \<and>
     set (fst st) \<subseteq> set fineTokens"

text \<open>The anchor Pass 2 remembers once \<open>idx\<close> surviving tokens have been consumed.\<close>

definition lastAnchor :: "'r fineToken list \<Rightarrow> nat \<Rightarrow> 'r option" where
  "lastAnchor toks idx = (if idx = 0 then None else Some (tok_range (toks ! (idx - 1))))"

text \<open>The text of the \<open>k\<close> tokens from position \<open>idx\<close> on.\<close>

definition consumed :: "'r fineToken list \<Rightarrow> nat \<Rightarrow> nat \<Rightarrow> jsstring" where
  "consumed toks idx k = concat (map tok_text (take k (drop idx toks)))"

text \<open>
  An insert op is after the range of one of the first \<open>n\<close> tokens, or before the start of
  the paragraph.
\<close>

definition wellAnchored :: "'r fineToken list \<Rightarrow> 'r \<Rightarrow> nat \<Rightarrow> 'r insertOp \<Rightarrow> bool" where
  "wellAnchored toks paragraphStart n op \<longleftrightarrow>
     (op_location op = LocAfter \<and> (\<exists>i<n. op_anchor op = tok_range (toks ! i))) \<or>
     (op_location op = LocBefore \<and> op_anchor op = paragraphStart)"

text \<open>
  What the events still to come must contain for an invocation at a control point to reach
  a document mutation.
\<close>

fun mutationNeeds :: "controlPoint \<Rightarrow> event list \<Rightarrow> bool" where
  "mutationNeeds (AwaitLLM selectionText) evs \<longleftrightarrow> (\<exists>response. LLMResolved (Some response) \<in> set evs)"
| "mutationNeeds AwaitApply evs \<longleftrightarrow> False"
| "mutationNeeds (Returned out) evs \<longleftrightarrow> False"
| "mutationNeeds pc evs \<longleftrightarrow>
     (\<exists>selectionText response. SelectionLoaded selectionText \<in> set evs \<and> selectionText \<noteq> [] \<and>
        jsTrim selectionText \<noteq> [] \<and> LLMResolved (Some response) \<in> set evs)"

section \<open>Lemmas\<close>

lemma dmpRegexMatch_concat: "concat (dmpRegexMatch s) = s"
  by (induction s rule: dmpRegexMatch.induct) simp_all

subsection \<open>The tokenizer\<close>

lemma dmpRegexMatch_nonempty: "[] \<notin> set (dmpRegexMatch s)"
  by (induction s rule: dmpRegexMatch.induct) simp_all

lemma filter_nonempty_dmpRegexMatch:
  "filter (\<lambda>tokenText. tokenText \<noteq> []) (dmpRegexMatch s) = dmpRegexMatch s"
  using dmpRegexMatch_nonempty [of s] by (auto simp: filter_id_conv)

lemma dmpRegexMatch_homogeneous:
  "t \<in> set (dmpRegexMatch s) \<Longrightarrow> t \<noteq> [] \<and> (\<forall>c\<in>set t. classOf c = classOf (hd t))"
proof (induction s rule: dmpRegexMatch.induct)
  case 1
  then show ?case by simp
next
  case (2 c cs)
  let ?P = "\<lambda>d. classOf d = classOf c"
  from "2.prems" consider "t = c # takeWhile ?P cs" | "t \<in> set (dmpRegexMatch (dropWhile ?P cs))"
    by auto
  then show ?case
  proof cases
    case 1
    then show ?thesis by (auto dest: set_takeWhileD)
  next
    case 2
    with "2.IH" show ?thesis by blast
  qed
qed

lemma dmpRegexMatch_maximal:
  "\<forall>(t1, t2)\<in>set (zip (dmpRegexMatch s) (tl (dmpRegexMatch s))). classOf (last t1) \<noteq> classOf (hd t2)"
proof (induction s rule: dmpRegexMatch.induct)
  case 1
  show ?case by simp
next
  case (2 c cs)
  let ?P = "\<lambda>d. classOf d = classOf c"
  let ?t = "c # takeWhile ?P cs"
  let ?rest = "dropWhile ?P cs"
  have "\<forall>x\<in>set ?t. classOf x = classOf c"
    by (auto dest: set_takeWhileD)
  moreover have "last ?t \<in> set ?t"
    by (rule last_in_set) simp
  ultimately have last: "classOf (last ?t) = classOf c"
    by blast
  show ?case
  proof (cases ?rest)
    case Nil
    then have "dmpRegexMatch (c # cs) = [?t]"
      by (simp del: dropWhile_eq_Nil_conv)
    then show ?thesis
      by (simp del: dmpRegexMatch.simps)
  next
    case (Cons d ds)
    have "\<not> ?P (hd ?rest)"
      by (rule hd_dropWhile) (simp add: Cons)
    then have d: "classOf d \<noteq> classOf c"
      by (simp add: Cons)
    define t' where "t' = d # takeWhile (\<lambda>e. classOf e = classOf d) ds"
    define ts' where "ts' = dmpRegexMatch (dropWhile (\<lambda>e. classOf e = classOf d) ds)"
    have rest: "dmpRegexMatch ?rest = t' # ts'" and hd: "hd t' = d"
      by (simp_all add: Cons t'_def ts'_def)
    from "2.IH" have ih: "\<forall>(t1, t2)\<in>set (zip (t' # ts') ts'). classOf (last t1) \<noteq> classOf (hd t2)"
      unfolding rest by simp
    have whole: "dmpRegexMatch (c # cs) = ?t # t' # ts'"
      unfolding rest [symmetric] by simp
    show ?thesis
      unfolding whole using last d hd ih by (simp del: last.simps)
  qed
qed

subsection \<open>The token map\<close>

lemma queueSearches_texts:
  "map proxyText (queueSearches search coarseRanges)
     = concat (map (\<lambda>(r, t). dmpRegexMatch t) coarseRanges)"
  unfolding queueSearches_def
  by (induction coarseRanges) (auto simp: filter_nonempty_dmpRegexMatch comp_def)

lemma processResults_texts:
  "processResults proxies acc = Inr ts \<Longrightarrow> map fst ts = map fst acc @ map proxyText proxies"
  by (induction proxies arbitrary: acc) (auto split: if_splits)

lemma enumerate_texts: "map (\<lambda>x. fst (snd x)) (enumerate n ts) = map fst ts"
  by (induction ts arbitrary: n) auto

lemma enumerate_indices: "map fst (enumerate n ts) = [n..<n + length ts]"
  by (induction ts arbitrary: n) (auto simp: upt_rec)

lemma assignIndex_texts: "map tok_text (assignIndex ts) = map fst ts"
  using enumerate_texts [of 0 ts] unfolding assignIndex_def
  by (simp add: comp_def case_prod_beta)

lemma assignIndex_indices: "map tok_index (assignIndex ts) = [0..<length ts]"
  using enumerate_indices [of 0 ts] unfolding assignIndex_def
  by (simp add: comp_def case_prod_beta)

lemma assignIndex_length: "length (assignIndex ts) = length ts"
  unfolding assignIndex_def by simp

lemma buildTokenMap_texts:
  assumes "buildTokenMap search coarseRanges = Inr fineTokens"
  shows "map tok_text fineTokens = concat (map (\<lambda>(r, t). dmpRegexMatch t) coarseRanges)"
  using assms unfolding buildTokenMap_def
  by (auto split: sum.splits simp: assignIndex_texts queueSearches_texts dest!: processResults_texts)

lemma buildTokenMap_indices:
  assumes "buildTokenMap search coarseRanges = Inr fineTokens"
  shows "map tok_index fineTokens = [0..<length fineTokens]"
  using assms unfolding buildTokenMap_def
  by (auto split: sum.splits simp: assignIndex_indices assignIndex_length)

lemma concat_tokens_coarse:
  "concat (concat (map (\<lambda>(r, t). dmpRegexMatch t) coarseRanges)) = concat (map snd coarseRanges)"
  by (induction coarseRanges) (auto simp: dmpRegexMatch_concat)

lemma tokenizeLoop_texts:
  "concat (map tok_text (blockTokens (tokenizeLoop i items b)))
     = concat (map tok_text (blockTokens b)) @ concat (map snd items)"
  by (induction i items b rule: tokenizeLoop.induct) auto

lemma tokenizeLoop_text:
  "blockText (tokenizeLoop i items b) = blockText b @ concat (map snd items)"
  by (induction i items b rule: tokenizeLoop.induct) auto

lemma tokenizeLoop_indices:
  "map tok_index (blockTokens (tokenizeLoop i items b))
     = map tok_index (blockTokens b) @ [i..<i + length items]"
  by (induction i items b rule: tokenizeLoop.induct) (auto simp: upt_rec)

lemma tokenizeLoop_token_texts:
  "map tok_text (blockTokens (tokenizeLoop i items b)) = map tok_text (blockTokens b) @ map snd items"
  by (induction i items b rule: tokenizeLoop.induct) auto

lemma tokenizeLoop_token_ranges:
  "map tok_range (blockTokens (tokenizeLoop i items b)) = map tok_range (blockTokens b) @ map fst items"
  by (induction i items b rule: tokenizeLoop.induct) auto

lemma tokenize_tokens:
  "map tok_text (blockTokens (tokenize tokenRanges)) = map snd tokenRanges"
  "map tok_range (blockTokens (tokenize tokenRanges)) = map fst tokenRanges"
  "blockText (tokenize tokenRanges) = concat (map snd tokenRanges)"
  unfolding tokenize_def
  by (simp_all add: tokenizeLoop_token_texts tokenizeLoop_token_ranges tokenizeLoop_text)

lemma tokenize_correct:
  "concat (map tok_text (blockTokens (tokenize tokenRanges))) = blockText (tokenize tokenRanges)"
  "map tok_index (blockTokens (tokenize tokenRanges)) = [0..<length tokenRanges]"
  unfolding tokenize_def
  by (simp_all add: tokenizeLoop_texts tokenizeLoop_text tokenizeLoop_indices)

text \<open>
  Claim C4 (token completeness). The regex matches of any string concatenate to the string;
  each is a non-empty run of code units of one class, and neighbouring matches differ in
  class, so the runs are maximal.
  Hence a token map built by \<^verbatim>\<open>verifyTokenMapStrategy\<close> over coarse ranges whose texts make
  up the range's text has as token texts the regex matches of the coarse texts, in order;
  they concatenate, in index order, to the range's text, and the indices are
  \<open>0, ..., N - 1\<close> in document order. \<^verbatim>\<open>ParagraphBlock.tokenize\<close> makes one token of each loaded
  range, with the range's text, its handle and its position as index, in the order of the
  ranges, and the block's text is the texts of the ranges one after the other; so the
  block's token texts concatenate to the block's text.
\<close>

theorem token_completeness:
  "concat (dmpRegexMatch s) = s \<and>
   (\<forall>t\<in>set (dmpRegexMatch s). t \<noteq> [] \<and> (\<forall>c\<in>set t. classOf c = classOf (hd t))) \<and>
   (\<forall>(t1, t2)\<in>set (zip (dmpRegexMatch s) (tl (dmpRegexMatch s))).
      classOf (last t1) \<noteq> classOf (hd t2)) \<and>
   (concat (map snd coarseRanges) = rangeText \<longrightarrow>
    buildTokenMap search coarseRanges = Inr fineTokens \<longrightarrow>
      map tok_text fineTokens = concat (map (\<lambda>(r, t). dmpRegexMatch t) coarseRanges) \<and>
      concat (map tok_text fineTokens) = rangeText \<and>
      map tok_index fineTokens = [0..<length fineTokens]) \<and>
   map tok_text (blockTokens (tokenize tokenRanges)) = map snd tokenRanges \<and>
   map tok_range (blockTokens (tokenize tokenRanges)) = map fst tokenRanges \<and>
   blockText (tokenize tokenRanges) = concat (map snd tokenRanges) \<and>
   concat (map tok_text (blockTokens (tokenize tokenRanges))) = blockText (tokenize tokenRanges) \<and>
   map tok_index (blockTokens (tokenize tokenRanges)) = [0..<length tokenRanges]"
proof (intro conjI impI)
  show "concat (dmpRegexMatch s) = s"
    by (rule dmpRegexMatch_concat)
next
  show "\<forall>t\<in>set (dmpRegexMatch s). t \<noteq> [] \<and> (\<forall>c\<in>set t. classOf c = classOf (hd t))"
    using dmpRegexMatch_homogeneous by blast
next
  show "\<forall>(t1, t2)\<in>set (zip (dmpRegexMatch s) (tl (dmpRegexMatch s))).
      classOf (last t1) \<noteq> classOf (hd t2)"
    by (rule dmpRegexMatch_maximal)
next
  assume full: "concat (map snd coarseRanges) = rangeText"
    and built: "buildTokenMap search coarseRanges = Inr fineTokens"
  from built
  show texts: "map tok_text fineTokens = concat (map (\<lambda>(r, t). dmpRegexMatch t) coarseRanges)"
    by (rule buildTokenMap_texts)
  from full show "concat (map tok_text fineTokens) = rangeText"
    unfolding texts by (simp add: concat_tokens_coarse)
  from built show "map tok_index fineTokens = [0..<length fineTokens]"
    by (rule buildTokenMap_indices)
qed (simp_all add: tokenize_correct tokenize_tokens)

theorem token_completeness_witness:
  "concat (map snd [(0::nat, js ''Start ''), (1, js ''End'')]) = js ''Start End'' \<and>
   buildTokenMap (\<lambda>r t. [r]) [(0::nat, js ''Start ''), (1, js ''End'')]
     = Inr [\<lparr>tok_text = js ''Start'', tok_range = 0, tok_index = 0\<rparr>,
            \<lparr>tok_text = js '' '', tok_range = 0, tok_index = 1\<rparr>,
            \<lparr>tok_text = js ''End'', tok_range = 1, tok_index = 2\<rparr>] \<and>
   concat (map tok_text [\<lparr>tok_text = js ''Start'', tok_range = 0::nat, tok_index = 0\<rparr>,
            \<lparr>tok_text = js '' '', tok_range = 0, tok_index = 1\<rparr>,
            \<lparr>tok_text = js ''End'', tok_range = 1, tok_index = 2\<rparr>]) = js ''Start End'' \<and>
   map tok_text (blockTokens (tokenize [(0::nat, js ''Start ''), (1, js ''End'')]))
     = [js ''Start '', js ''End''] \<and>
   map tok_range (blockTokens (tokenize [(0::nat, js ''Start ''), (1, js ''End'')])) = [0, 1] \<and>
   map tok_index (blockTokens (tokenize [(0::nat, js ''Start ''), (1, js ''End'')])) = [0, 1] \<and>
   blockText (tokenize [(0::nat, js ''Start ''), (1, js ''End'')]) = js ''Start End''"
proof -
  let ?ranges = "[(0::nat, js ''Start ''), (1, js ''End'')]"
  let ?toks = "[\<lparr>tok_text = js ''Start'', tok_range = 0::nat, tok_index = 0\<rparr>,
            \<lparr>tok_text = js '' '', tok_range = 0, tok_index = 1\<rparr>,
            \<lparr>tok_text = js ''End'', tok_range = 1, tok_index = 2\<rparr>]"
  have full: "concat (map snd ?ranges) = js ''Start End''"
    by (simp add: js_def)
  have built: "buildTokenMap (\<lambda>r t. [r]) ?ranges = Inr ?toks"
    by (simp add: buildTokenMap_def queueSearches_def assignIndex_def js_def classOf_def
        isWordChar_def isSpaceChar_def)
  note all = token_completeness [of "js ''Start End''" ?ranges "js ''Start End''" "\<lambda>r t. [r]" ?toks
      ?ranges]
  from all full built have whole: "concat (map tok_text ?toks) = js ''Start End''"
    by blast
  from all have t1: "map tok_text (blockTokens (tokenize ?ranges)) = map snd ?ranges"
    and t2: "map tok_range (blockTokens (tokenize ?ranges)) = map fst ?ranges"
    and t3: "blockText (tokenize ?ranges) = concat (map snd ?ranges)"
    and t4: "map tok_index (blockTokens (tokenize ?ranges)) = [0..<length ?ranges]"
    by blast+
  from t1 have 1: "map tok_text (blockTokens (tokenize ?ranges)) = [js ''Start '', js ''End'']"
    by simp
  from t2 have 2: "map tok_range (blockTokens (tokenize ?ranges)) = [0, 1]"
    by simp
  from t4 have 3: "map tok_index (blockTokens (tokenize ?ranges)) = [0, 1]"
    by (simp add: upt_rec)
  from t3 have 4: "blockText (tokenize ?ranges) = js ''Start End''"
    by (simp add: js_def)
  from full built whole 1 2 3 4 show ?thesis
    by (intro conjI)
qed

lemma deleteLoop_eq:
  "deleteLoop n fineTokens (deleteTargets, tokenIndex)
     = (deleteTargets @ take n (drop tokenIndex fineTokens),
        tokenIndex + min n (length fineTokens - tokenIndex))"
proof (induction n arbitrary: deleteTargets tokenIndex)
  case 0
  show ?case by simp
next
  case (Suc n)
  show ?case
  proof (cases "tokenIndex < length fineTokens")
    case True
    then have "drop tokenIndex fineTokens = fineTokens ! tokenIndex # drop (Suc tokenIndex) fineTokens"
      by (simp add: Cons_nth_drop_Suc)
    with True Suc.IH show ?thesis by (auto simp: min_def)
  next
    case False
    with Suc.IH show ?thesis by simp
  qed
qed

lemma pass1Loop_append:
  "pass1Loop (diffs @ diffs') fineTokens st = pass1Loop diffs' fineTokens (pass1Loop diffs fineTokens st)"
  by (induction diffs arbitrary: st) simp_all

text \<open>
  Claim C6 (Pass 1), as amended. The walk starts with no delete targets and the cursor at 0 and
  takes the diff ops in order. An Equal op advances the cursor by the number of regex matches
  of its text and marks nothing. A Delete op with \<open>count\<close> regex matches appends the next
  \<open>count\<close> document tokens from the cursor on, or only those that are left when fewer are
  left, and advances the cursor past each appended token; when \<open>count\<close> tokens are left these
  are exactly \<open>count\<close> consecutive tokens. Every other op changes nothing.
\<close>

theorem pass1_cursor:
  "pass1 [] fineTokens = ([], 0) \<and>
   pass1 (diffs @ [d]) fineTokens = pass1Step fineTokens d (pass1 diffs fineTokens) \<and>
   pass1Step fineTokens (0, chunk) (deleteTargets, tokenIndex)
     = (deleteTargets, tokenIndex + length (dmpRegexMatch chunk)) \<and>
   pass1Step fineTokens (-1, chunk) (deleteTargets, tokenIndex)
     = (deleteTargets @ take (length (dmpRegexMatch chunk)) (drop tokenIndex fineTokens),
        tokenIndex + min (length (dmpRegexMatch chunk)) (length fineTokens - tokenIndex)) \<and>
   (tokenIndex + length (dmpRegexMatch chunk) \<le> length fineTokens \<longrightarrow>
      pass1Step fineTokens (-1, chunk) (deleteTargets, tokenIndex)
        = (deleteTargets @ map (\<lambda>i. fineTokens ! i)
                             [tokenIndex..<tokenIndex + length (dmpRegexMatch chunk)],
           tokenIndex + length (dmpRegexMatch chunk))) \<and>
   (op \<noteq> 0 \<and> op \<noteq> -1 \<longrightarrow>
      pass1Step fineTokens (op, chunk) (deleteTargets, tokenIndex) = (deleteTargets, tokenIndex))"
proof -
  have "take n (drop i fineTokens) = map (\<lambda>i. fineTokens ! i) [i..<i + n]"
    if "i + n \<le> length fineTokens" for i n
    using that by (intro nth_equalityI) simp_all
  then show ?thesis
    by (simp add: pass1_def pass1Loop_append deleteLoop_eq min_def)
qed

text \<open>
  Against claim C6 as stated: with a one-token table, a Delete op whose text has three regex
  matches appends one token, not three, and leaves the cursor at 1.
\<close>

theorem pass1_delete_counterexample:
  "length (dmpRegexMatch (js ''a b'')) = 3 \<and>
   pass1 [(-1, js ''a b'')] [\<lparr>tok_text = js ''a'', tok_range = 0::nat, tok_index = 0\<rparr>]
     = ([\<lparr>tok_text = js ''a'', tok_range = 0::nat, tok_index = 0\<rparr>], 1)"
  by (simp add: pass1_def js_def classOf_def isWordChar_def isSpaceChar_def)

lemma indices_take_drop:
  assumes "map tok_index fineTokens = [0..<length fineTokens]"
  shows "map tok_index (take n (drop i fineTokens)) = [i..<min (i + n) (length fineTokens)]"
proof -
  have "map tok_index (take n (drop i fineTokens)) = take n (drop i (map tok_index fineTokens))"
    by (simp add: take_map drop_map)
  also have "\<dots> = take n (drop i [0..<length fineTokens])"
    by (simp add: assms)
  also have "\<dots> = [i..<min (i + n) (length fineTokens)]"
    by (intro nth_equalityI) (auto simp: min_def)
  finally show ?thesis .
qed

lemma pass1Step_inv:
  assumes idx: "map tok_index fineTokens = [0..<length fineTokens]"
    and inv: "pass1Inv fineTokens st"
  shows "pass1Inv fineTokens (pass1Step fineTokens d st)"
proof -
  obtain op chunk where d: "d = (op, chunk)" by (cases d)
  obtain dt ti where st: "st = (dt, ti)" by (cases st)
  from inv st have s: "sorted_wrt (<) (map tok_index dt)" and b: "\<forall>t\<in>set dt. tok_index t < ti"
    and sub: "set dt \<subseteq> set fineTokens"
    by (simp_all add: pass1Inv_def)
  show ?thesis
  proof (cases "op = 0")
    case True
    with s b sub show ?thesis
      by (auto simp: d st pass1Inv_def)
  next
    case False
    show ?thesis
    proof (cases "op = -1")
      case True
      let ?n = "length (dmpRegexMatch chunk)"
      let ?new = "take ?n (drop ti fineTokens)"
      have new: "map tok_index ?new = [ti..<min (ti + ?n) (length fineTokens)]"
        by (rule indices_take_drop [OF idx])
      have "sorted_wrt (<) (map tok_index (dt @ ?new))"
        using s b by (auto simp: sorted_wrt_append new)
      moreover have "\<forall>t\<in>set (dt @ ?new). tok_index t < ti + min ?n (length fineTokens - ti)"
      proof
        fix t assume "t \<in> set (dt @ ?new)"
        then consider "t \<in> set dt" | "t \<in> set ?new" by auto
        then show "tok_index t < ti + min ?n (length fineTokens - ti)"
        proof cases
          case 1
          with b show ?thesis by fastforce
        next
          case 2
          then have "tok_index t \<in> tok_index ` set ?new" by (rule imageI)
          then have "tok_index t \<in> set (map tok_index ?new)" by (simp only: set_map)
          then show ?thesis unfolding new by (auto simp: min_def split: if_splits)
        qed
      qed
      moreover have "set (dt @ ?new) \<subseteq> set fineTokens"
        using sub by (auto dest: in_set_takeD in_set_dropD)
      ultimately show ?thesis
        using True by (simp add: d st pass1Inv_def deleteLoop_eq del: map_append)
    next
      case False
      with \<open>op \<noteq> 0\<close> s b sub show ?thesis
        by (auto simp: d st pass1Inv_def)
    qed
  qed
qed

lemma pass1Loop_inv:
  assumes "map tok_index fineTokens = [0..<length fineTokens]"
  shows "pass1Inv fineTokens st \<Longrightarrow> pass1Inv fineTokens (pass1Loop diffs fineTokens st)"
  by (induction diffs arbitrary: st) (simp_all add: pass1Step_inv [OF assms])

lemma pass1_ascending:
  assumes "map tok_index fineTokens = [0..<length fineTokens]"
  shows "sorted_wrt (<) (map tok_index (fst (pass1 diffs fineTokens)))"
    and "set (fst (pass1 diffs fineTokens)) \<subseteq> set fineTokens"
proof -
  have "pass1Inv fineTokens ([], 0)" by (simp add: pass1Inv_def)
  from pass1Loop_inv [OF assms this, of diffs]
  show "sorted_wrt (<) (map tok_index (fst (pass1 diffs fineTokens)))"
    and "set (fst (pass1 diffs fineTokens)) \<subseteq> set fineTokens"
    by (simp_all add: pass1Inv_def pass1_def)
qed

lemma set_sortInsert: "set (sortInsert cmp x ys) = insert x (set ys)"
  by (induction ys) auto

lemma set_arraySort: "set (arraySort cmp xs) = set xs"
  by (induction xs) (simp_all add: set_sortInsert)

lemma length_sortInsert: "length (sortInsert cmp x ys) = Suc (length ys)"
  by (induction ys) auto

lemma length_arraySort: "length (arraySort cmp xs) = length xs"
  by (induction xs) (simp_all add: length_sortInsert)

lemma sortInsert_descending:
  assumes "sorted_wrt (\<lambda>a b. tok_index b < tok_index a) ys"
    and "\<forall>y\<in>set ys. tok_index y \<noteq> tok_index x"
  shows "sorted_wrt (\<lambda>a b. tok_index b < tok_index a) (sortInsert byIndexDescending x ys)"
  using assms
proof (induction ys)
  case Nil
  show ?case by simp
next
  case (Cons y ys)
  then show ?case
    by (auto simp: byIndexDescending_def set_sortInsert)
qed

lemma arraySort_descending:
  "distinct (map tok_index xs) \<Longrightarrow>
   sorted_wrt (\<lambda>a b. tok_index b < tok_index a) (arraySort byIndexDescending xs)"
proof (induction xs)
  case Nil
  show ?case by simp
next
  case (Cons x xs)
  then have "sorted_wrt (\<lambda>a b. tok_index b < tok_index a) (arraySort byIndexDescending xs)"
    by simp
  moreover from Cons.prems have "\<forall>y\<in>set (arraySort byIndexDescending xs). tok_index y \<noteq> tok_index x"
    by (auto simp: set_arraySort image_iff)
  ultimately show ?case
    by (simp add: sortInsert_descending)
qed

lemma ascending_distinct: "sorted_wrt (<) (ns :: nat list) \<Longrightarrow> distinct ns"
  by (induction ns) auto

lemma descending_distinct:
  "sorted_wrt (\<lambda>a b. tok_index b < tok_index a) xs \<Longrightarrow> distinct (map tok_index xs)"
  by (induction xs) auto

text \<open>
  Claim C5 (deletion ordering). The batch queued by one plan execution is the optional
  tracking switch, then every delete, then every insert, then the optional tracking switch;
  the deletes run over the sorted \<open>deleteTargets\<close>, whose token indices are strictly
  descending, hence without a repeated index.
\<close>

theorem deletes_descending_before_inserts:
  assumes built: "buildTokenMap search coarseRanges = Inr fineTokens"
    and planned: "pass2 diffs fineTokens (fst (pass1 diffs fineTokens)) paragraphStart = Inr insertOps"
  shows "planTokenMap hasCTM search coarseRanges paragraphStart diffs
           = Inr ((if hasCTM then [SetChangeTrackingMode TrackAll] else [])
                  @ map (\<lambda>token. RangeDelete (tok_range token))
                      (arraySort byIndexDescending (fst (pass1 diffs fineTokens)))
                  @ map (\<lambda>op. RangeInsertText (op_anchor op) (op_text op) (op_location op)) insertOps
                  @ (if hasCTM then [SetChangeTrackingMode TrackingOff] else [])) \<and>
         sorted_wrt (\<lambda>a b. tok_index b < tok_index a)
           (arraySort byIndexDescending (fst (pass1 diffs fineTokens))) \<and>
         distinct (map tok_index (arraySort byIndexDescending (fst (pass1 diffs fineTokens)))) \<and>
         set (arraySort byIndexDescending (fst (pass1 diffs fineTokens)))
           = set (fst (pass1 diffs fineTokens)) \<and>
         set (fst (pass1 diffs fineTokens)) \<subseteq> set fineTokens"
proof -
  let ?targets = "fst (pass1 diffs fineTokens)"
  let ?deleted = "arraySort byIndexDescending ?targets"
  from built have idx: "map tok_index fineTokens = [0..<length fineTokens]"
    by (rule buildTokenMap_indices)
  have asc: "sorted_wrt (<) (map tok_index ?targets)" and sub: "set ?targets \<subseteq> set fineTokens"
    by (rule pass1_ascending [OF idx])+
  from asc have "distinct (map tok_index ?targets)"
    by (rule ascending_distinct)
  then have desc: "sorted_wrt (\<lambda>a b. tok_index b < tok_index a) ?deleted"
    by (rule arraySort_descending)
  then have "distinct (map tok_index ?deleted)"
    by (rule descending_distinct)
  with built planned sub desc show ?thesis
    by (simp add: planTokenMap_def executionPhase_def set_arraySort)
qed

theorem deletes_descending_before_inserts_witness:
  "buildTokenMap (\<lambda>(n, _) t. [(n, t)]) [((0::nat, []), js ''a ''), ((1, []), js ''b'')]
     = Inr [\<lparr>tok_text = js ''a'', tok_range = (0, js ''a''), tok_index = 0\<rparr>,
            \<lparr>tok_text = js '' '', tok_range = (0, js '' ''), tok_index = 1\<rparr>,
            \<lparr>tok_text = js ''b'', tok_range = (1, js ''b''), tok_index = 2\<rparr>] \<and>
   planTokenMap True (\<lambda>(n, _) t. [(n, t)]) [((0::nat, []), js ''a ''), ((1, []), js ''b'')]
     (2, []) [(0, js ''a''), (-1, js '' b''), (1, js ''!'')]
   = Inr [SetChangeTrackingMode TrackAll,
          RangeDelete (1, js ''b''), RangeDelete (0, js '' ''),
          RangeInsertText (0, js ''a'') (js ''!'') LocAfter,
          SetChangeTrackingMode TrackingOff]"
proof -
  let ?toks = "[\<lparr>tok_text = js ''a'', tok_range = (0::nat, js ''a''), tok_index = 0\<rparr>,
            \<lparr>tok_text = js '' '', tok_range = (0, js '' ''), tok_index = 1\<rparr>,
            \<lparr>tok_text = js ''b'', tok_range = (1, js ''b''), tok_index = 2\<rparr>]"
  let ?diffs = "[(0, js ''a''), (-1, js '' b''), (1, js ''!'')]"
  have built: "buildTokenMap (\<lambda>(n, _) t. [(n, t)]) [((0::nat, []), js ''a ''), ((1, []), js ''b'')]
     = Inr ?toks"
    by (simp add: buildTokenMap_def queueSearches_def assignIndex_def
        js_def classOf_def isWordChar_def isSpaceChar_def)
  have targets: "fst (pass1 ?diffs ?toks) = [?toks ! 1, ?toks ! 2]"
    by (simp add: pass1_def js_def classOf_def isWordChar_def isSpaceChar_def)
  have planned: "pass2 ?diffs ?toks (fst (pass1 ?diffs ?toks)) (2, [])
     = Inr [\<lparr>op_anchor = (0, js ''a''), op_location = LocAfter, op_text = js ''!''\<rparr>]"
    unfolding targets
    by (simp add: pass2_def tokensAfterDeletes_def consumeEqual.simps js_def)
  from deletes_descending_before_inserts [OF built planned, of True] built show ?thesis
    unfolding targets by (simp add: byIndexDescending_def)
qed

theorem pass1_cursor_witness:
  "0 + length (dmpRegexMatch (js ''a '')) \<le>
     length [\<lparr>tok_text = js ''a'', tok_range = 0::nat, tok_index = 0\<rparr>,
             \<lparr>tok_text = js '' '', tok_range = 1, tok_index = 1\<rparr>,
             \<lparr>tok_text = js ''b'', tok_range = 2, tok_index = 2\<rparr>] \<and>
   pass1Step [\<lparr>tok_text = js ''a'', tok_range = 0::nat, tok_index = 0\<rparr>,
              \<lparr>tok_text = js '' '', tok_range = 1, tok_index = 1\<rparr>,
              \<lparr>tok_text = js ''b'', tok_range = 2, tok_index = 2\<rparr>] (-1, js ''a '') ([], 0)
     = ([\<lparr>tok_text = js ''a'', tok_range = 0::nat, tok_index = 0\<rparr>,
         \<lparr>tok_text = js '' '', tok_range = 1, tok_index = 1\<rparr>], 2) \<and>
   ((1::int) \<noteq> 0 \<and> (1::int) \<noteq> -1) \<and>
   pass1Step [\<lparr>tok_text = js ''a'', tok_range = 0::nat, tok_index = 0\<rparr>,
              \<lparr>tok_text = js '' '', tok_range = 1, tok_index = 1\<rparr>,
              \<lparr>tok_text = js ''b'', tok_range = 2, tok_index = 2\<rparr>] (1, js ''x'') ([], 0)
     = ([], 0)"
proof -
  have count: "length (dmpRegexMatch (js ''a '')) = 2"
    by (simp add: js_def classOf_def isWordChar_def isSpaceChar_def)
  show ?thesis
    using pass1_cursor [of "[\<lparr>tok_text = js ''a'', tok_range = 0::nat, tok_index = 0\<rparr>,
              \<lparr>tok_text = js '' '', tok_range = 1, tok_index = 1\<rparr>,
              \<lparr>tok_text = js ''b'', tok_range = 2, tok_index = 2\<rparr>]" "[]" _ "js ''a ''" "[]" 0 1]
    unfolding count by (simp add: upt_rec)
qed

lemma processResults_unresolved:
  assumes "\<forall>q\<in>set resolved. proxyResults q \<noteq> []" and "proxyResults proxy = []"
  shows "processResults (resolved @ proxy # rest) acc = Inl (TokenMappingFailed (proxyText proxy))"
  using assms by (induction resolved arbitrary: acc) simp_all

lemma processResults_resolved:
  "processResults proxies acc = Inr ts \<Longrightarrow>
   (\<forall>q\<in>set proxies. proxyResults q \<noteq> []) \<and>
   ts = acc @ map (\<lambda>q. (proxyText q, proxyResults q ! 0)) proxies"
proof (induction proxies arbitrary: acc)
  case Nil
  then show ?case by simp
next
  case (Cons p proxies)
  from Cons.prems have p: "proxyResults p \<noteq> []"
    by (auto split: if_splits)
  with Cons.prems
  have "processResults proxies (acc @ [(proxyText p, proxyResults p ! 0)]) = Inr ts"
    by simp
  from Cons.IH [OF this] p show ?case by simp
qed

lemma assignIndex_ranges: "map tok_range (assignIndex ts) = map snd ts"
proof -
  have "map (\<lambda>x. snd (snd x)) (enumerate n ts) = map snd ts" for n
    by (induction ts arbitrary: n) auto
  from this [of 0] show ?thesis
    unfolding assignIndex_def by (simp add: comp_def case_prod_beta)
qed

text \<open>
  Claim C8 (token resolution failure). If the search of some fine token finds nothing, the
  token map fails with the error naming the first such token's text, and so does the whole
  plan: no batch is queued. A token map that is returned holds every fine token of every
  coarse range, each with the first match of its own search, and a batch is only ever queued
  from such a complete map.
\<close>

theorem token_mapping_failure:
  "(queueSearches search coarseRanges = resolved @ proxy # rest \<and>
    (\<forall>q\<in>set resolved. proxyResults q \<noteq> []) \<and> proxyResults proxy = [] \<longrightarrow>
      buildTokenMap search coarseRanges = Inl (TokenMappingFailed (proxyText proxy)) \<and>
      planTokenMap hasCTM search coarseRanges paragraphStart diffs
        = Inl (TokenMappingFailed (proxyText proxy))) \<and>
   ((\<exists>q\<in>set (queueSearches search coarseRanges). proxyResults q = []) \<longrightarrow>
      (\<exists>q\<in>set (queueSearches search coarseRanges). proxyResults q = [] \<and>
         buildTokenMap search coarseRanges = Inl (TokenMappingFailed (proxyText q)) \<and>
         planTokenMap hasCTM search coarseRanges paragraphStart diffs
           = Inl (TokenMappingFailed (proxyText q)))) \<and>
   (buildTokenMap search coarseRanges = Inr fineTokens \<longrightarrow>
      (\<forall>q\<in>set (queueSearches search coarseRanges). proxyResults q \<noteq> []) \<and>
      map tok_text fineTokens = map proxyText (queueSearches search coarseRanges) \<and>
      map tok_range fineTokens = map (\<lambda>q. proxyResults q ! 0) (queueSearches search coarseRanges)) \<and>
   (planTokenMap hasCTM search coarseRanges paragraphStart diffs = Inr batch \<longrightarrow>
      (\<exists>fineTokens. buildTokenMap search coarseRanges = Inr fineTokens \<and>
         map tok_text fineTokens = map proxyText (queueSearches search coarseRanges)))"
proof -
  let ?proxies = "queueSearches search coarseRanges"
  have first: "buildTokenMap search coarseRanges = Inl (TokenMappingFailed (proxyText p)) \<and>
      planTokenMap hasCTM search coarseRanges paragraphStart diffs
        = Inl (TokenMappingFailed (proxyText p))"
    if "?proxies = pre @ p # post" "\<forall>q\<in>set pre. proxyResults q \<noteq> []" "proxyResults p = []"
    for pre p post
    using processResults_unresolved [OF that(2,3), of post "[]"] that(1)
    by (simp add: buildTokenMap_def planTokenMap_def)
  have any: "\<exists>q\<in>set ?proxies. proxyResults q = [] \<and>
         buildTokenMap search coarseRanges = Inl (TokenMappingFailed (proxyText q)) \<and>
         planTokenMap hasCTM search coarseRanges paragraphStart diffs
           = Inl (TokenMappingFailed (proxyText q))"
    if "\<exists>q\<in>set ?proxies. proxyResults q = []"
  proof -
    from that obtain pre p post where
      split: "?proxies = pre @ p # post" "proxyResults p = []" "\<forall>q\<in>set pre. proxyResults q \<noteq> []"
      by (auto dest!: split_list_first_prop)
    from first [OF split(1) split(3) split(2)] split(1,2) show ?thesis
      by auto
  qed
  have complete: "(\<forall>q\<in>set ?proxies. proxyResults q \<noteq> []) \<and>
      map tok_text ft = map proxyText ?proxies \<and>
      map tok_range ft = map (\<lambda>q. proxyResults q ! 0) ?proxies"
    if "buildTokenMap search coarseRanges = Inr ft" for ft
    using that unfolding buildTokenMap_def
    by (auto split: sum.splits dest!: processResults_resolved
        simp: assignIndex_texts assignIndex_ranges comp_def)
  have planned: "\<exists>ft. buildTokenMap search coarseRanges = Inr ft \<and>
         map tok_text ft = map proxyText ?proxies"
    if "planTokenMap hasCTM search coarseRanges paragraphStart diffs = Inr batch"
  proof -
    from that obtain ft where "buildTokenMap search coarseRanges = Inr ft"
      unfolding planTokenMap_def by (auto split: sum.splits)
    with complete [OF this] show ?thesis by blast
  qed
  from first any complete planned show ?thesis
    by (intro conjI impI) blast+
qed

theorem token_mapping_failure_witness:
  "queueSearches (\<lambda>r t. if t = js ''!'' then [] else [r]) [(0::nat, js ''a!'')]
     = [\<lparr>proxyText = js ''a'', proxyResults = [0], proxyCoarseText = js ''a!''\<rparr>]
       @ \<lparr>proxyText = js ''!'', proxyResults = [], proxyCoarseText = js ''a!''\<rparr> # [] \<and>
   buildTokenMap (\<lambda>r t. if t = js ''!'' then [] else [r]) [(0::nat, js ''a!'')]
     = Inl (TokenMappingFailed (js ''!'')) \<and>
   planTokenMap True (\<lambda>r t. if t = js ''!'' then [] else [r]) [(0::nat, js ''a!'')] 7
       [(0, js ''a''), (-1, js ''!'')]
     = Inl (TokenMappingFailed (js ''!'')) \<and>
   buildTokenMap (\<lambda>r t. [r]) [(0::nat, js ''a!'')]
     = Inr [\<lparr>tok_text = js ''a'', tok_range = 0, tok_index = 0\<rparr>,
            \<lparr>tok_text = js ''!'', tok_range = 0, tok_index = 1\<rparr>] \<and>
   planTokenMap True (\<lambda>r t. [r]) [(0::nat, js ''a!'')] 7 [(0, js ''a''), (-1, js ''!'')]
     = Inr [SetChangeTrackingMode TrackAll, RangeDelete 0, SetChangeTrackingMode TrackingOff] \<and>
   map proxyText (queueSearches (\<lambda>r t. [r]) [(0::nat, js ''a!'')]) = [js ''a'', js ''!'']"
proof -
  let ?miss = "\<lambda>(r::nat) t. if t = js ''!'' then [] else [r]"
  let ?hit = "\<lambda>(r::nat) (t::jsstring). [r]"
  let ?pa = "\<lparr>proxyText = js ''a'', proxyResults = [0::nat], proxyCoarseText = js ''a!''\<rparr>"
  let ?pb = "\<lparr>proxyText = js ''!'', proxyResults = [] :: nat list, proxyCoarseText = js ''a!''\<rparr>"
  let ?toks = "[\<lparr>tok_text = js ''a'', tok_range = 0::nat, tok_index = 0\<rparr>,
            \<lparr>tok_text = js ''!'', tok_range = 0, tok_index = 1\<rparr>]"
  have queued: "queueSearches ?miss [(0::nat, js ''a!'')] = [?pa] @ ?pb # []"
    by (simp add: queueSearches_def js_def classOf_def isWordChar_def isSpaceChar_def)
  have resolved: "\<forall>q\<in>set [?pa]. proxyResults q \<noteq> []" and unresolved: "proxyResults ?pb = []"
    by simp_all
  have built: "buildTokenMap ?hit [(0::nat, js ''a!'')] = Inr ?toks"
    by (simp add: buildTokenMap_def queueSearches_def assignIndex_def
        js_def classOf_def isWordChar_def isSpaceChar_def)
  have batch: "planTokenMap True ?hit [(0::nat, js ''a!'')] 7 [(0, js ''a''), (-1, js ''!'')]
     = Inr [SetChangeTrackingMode TrackAll, RangeDelete 0, SetChangeTrackingMode TrackingOff]"
    unfolding planTokenMap_def built
    by (simp add: pass1_def pass2_def tokensAfterDeletes_def byIndexDescending_def
        executionPhase_def consumeEqual.simps js_def classOf_def isWordChar_def isSpaceChar_def)
  from token_mapping_failure [of ?miss "[(0::nat, js ''a!'')]" "[?pa]" ?pb "[]" True 7
      "[(0, js ''a''), (-1, js ''!'')]" "[]" "[]"] queued resolved unresolved
  have failing: "buildTokenMap ?miss [(0::nat, js ''a!'')] = Inl (TokenMappingFailed (js ''!'')) \<and>
      planTokenMap True ?miss [(0::nat, js ''a!'')] 7 [(0, js ''a''), (-1, js ''!'')]
        = Inl (TokenMappingFailed (js ''!''))"
    by simp
  from token_mapping_failure [of ?hit "[(0::nat, js ''a!'')]" "[]" ?pb "[]" True 7
      "[(0, js ''a''), (-1, js ''!'')]" ?toks
      "[SetChangeTrackingMode TrackAll, RangeDelete 0, SetChangeTrackingMode TrackingOff]"]
    built batch
  have texts: "map proxyText (queueSearches ?hit [(0::nat, js ''a!'')]) = [js ''a'', js ''!'']"
    by simp
  from queued failing built batch texts show ?thesis
    by (intro conjI) simp_all
qed

subsection \<open>Pass 2\<close>

lemma consumed_0: "consumed toks idx 0 = []"
  by (simp add: consumed_def)

lemma consumed_Suc:
  "idx < length toks \<Longrightarrow> consumed toks idx (Suc k) = tok_text (toks ! idx) @ consumed toks (Suc idx) k"
  by (simp add: consumed_def Cons_nth_drop_Suc [symmetric])

lemma consumeEqual_fails_only:
  "consumeEqual str toks st = Inl e \<Longrightarrow> e = MapLookupFailed"
proof (induction str toks st rule: consumeEqual.induct)
  case (1 str toks idx anchor)
  then show ?case
    by (subst (asm) (2) consumeEqual.simps) (auto split: if_splits)
qed

lemma consumeEqual_fails_pair:
  "consumeEqual str toks st = Inl MapLookupFailed \<longleftrightarrow>
   (\<exists>k. fst st + k < length toks \<and> prefix (consumed toks (fst st) k) str \<and>
        length (consumed toks (fst st) k) < length str \<and>
        \<not> prefix (tok_text (toks ! (fst st + k))) (drop (length (consumed toks (fst st) k)) str))"
proof (induction str toks st rule: consumeEqual.induct)
  case (1 str toks idx anchor)
  let ?Q = "\<lambda>k str idx. idx + k < length toks \<and> prefix (consumed toks idx k) str \<and>
        length (consumed toks idx k) < length str \<and>
        \<not> prefix (tok_text (toks ! (idx + k))) (drop (length (consumed toks idx k)) str)"
  have "consumeEqual str toks (idx, anchor) = Inl MapLookupFailed \<longleftrightarrow> (\<exists>k. ?Q k str idx)"
  proof (cases "length str > 0 \<and> idx < length toks")
    case False
    then have "consumeEqual str toks (idx, anchor) = Inr (idx, anchor)"
      by (subst consumeEqual.simps) auto
    moreover have "\<not> ?Q k str idx" for k
    proof (cases "idx < length toks")
      case True
      with False have "str = []" by simp
      then show ?thesis by simp
    next
      case False
      then have "\<not> idx + k < length toks" by arith
      then show ?thesis by simp
    qed
    ultimately show ?thesis by simp
  next
    case True
    let ?t = "tok_text (toks ! idx)"
    show ?thesis
    proof (cases "prefix ?t str")
      case False
      with True have "consumeEqual str toks (idx, anchor) = Inl MapLookupFailed"
        by (subst consumeEqual.simps) auto
      moreover from True False have "?Q 0 str idx"
        by (simp add: consumed_0)
      ultimately show ?thesis by blast
    next
      case pre: True
      with True have step: "consumeEqual str toks (idx, anchor)
          = consumeEqual (drop (length ?t) str) toks (Suc idx, Some (tok_range (toks ! idx)))"
        by (subst consumeEqual.simps) auto
      from pre obtain rest where str: "str = ?t @ rest"
        by (auto simp: prefix_def)
      have shift: "?Q (Suc k) str idx \<longleftrightarrow> ?Q k (drop (length ?t) str) (Suc idx)" for k
        using True by (simp add: consumed_Suc str)
      have "(\<exists>k. ?Q k str idx) \<longleftrightarrow> (\<exists>k. ?Q (Suc k) str idx)"
      proof
        assume "\<exists>k. ?Q k str idx"
        then obtain k where k: "?Q k str idx" ..
        have "k \<noteq> 0"
        proof
          assume "k = 0"
          with k have "\<not> prefix ?t str" by (simp add: consumed_0)
          with pre show False by simp
        qed
        then obtain k' where "k = Suc k'" by (cases k) auto
        with k show "\<exists>k. ?Q (Suc k) str idx" by blast
      qed blast
      with shift have "(\<exists>k. ?Q k str idx) \<longleftrightarrow> (\<exists>k. ?Q k (drop (length ?t) str) (Suc idx))"
        by simp
      with "1.IH" [OF True pre] step show ?thesis
        by simp
    qed
  qed
  then show ?case by simp
qed

lemma consumeEqual_succeeds:
  "consumeEqual str toks st = Inr st' \<Longrightarrow>
   fst st \<le> fst st' \<and>
   prefix (consumed toks (fst st) (fst st' - fst st)) str \<and>
   (length (consumed toks (fst st) (fst st' - fst st)) = length str \<or> length toks \<le> fst st') \<and>
   (fst st \<le> length toks \<longrightarrow> fst st' \<le> length toks) \<and>
   (fst st' = fst st \<longrightarrow> snd st' = snd st) \<and>
   (fst st' \<noteq> fst st \<longrightarrow> snd st' = Some (tok_range (toks ! (fst st' - 1))))"
proof (induction str toks st rule: consumeEqual.induct)
  case (1 str toks idx anchor)
  show ?case
  proof (cases "length str > 0 \<and> idx < length toks")
    case False
    then have "consumeEqual str toks (idx, anchor) = Inr (idx, anchor)"
      by (subst consumeEqual.simps) auto
    with "1.prems" have "st' = (idx, anchor)" by simp
    with False show ?thesis by (auto simp: consumed_0)
  next
    case True
    let ?t = "tok_text (toks ! idx)"
    from True "1.prems" have pre: "prefix ?t str"
      by (subst (asm) consumeEqual.simps) (auto split: if_splits)
    with True "1.prems"
    have rec: "consumeEqual (drop (length ?t) str) toks (Suc idx, Some (tok_range (toks ! idx))) = Inr st'"
      by (subst (asm) consumeEqual.simps) auto
    from pre obtain rest where str: "str = ?t @ rest"
      by (auto simp: prefix_def)
    from "1.IH" [OF True pre rec]
    have le: "Suc idx \<le> fst st'"
      and p: "prefix (consumed toks (Suc idx) (fst st' - Suc idx)) (drop (length ?t) str)"
      and full: "length (consumed toks (Suc idx) (fst st' - Suc idx)) = length (drop (length ?t) str)
                 \<or> length toks \<le> fst st'"
      and bound: "fst st' \<le> length toks"
      and anchor: "fst st' = Suc idx \<longrightarrow> snd st' = Some (tok_range (toks ! idx))"
                  "fst st' \<noteq> Suc idx \<longrightarrow> snd st' = Some (tok_range (toks ! (fst st' - 1)))"
      using True by simp_all
    from le have k: "fst st' - idx = Suc (fst st' - Suc idx)" by arith
    have c: "consumed toks idx (fst st' - idx) = ?t @ consumed toks (Suc idx) (fst st' - Suc idx)"
      using True by (simp add: k consumed_Suc)
    from le p full bound anchor show ?thesis
      by (auto simp: c str)
  qed
qed

lemma pass2Loop_append:
  "pass2Loop (xs @ ys) toks paragraphStart st
     = (case pass2Loop xs toks paragraphStart st of
          Inl e \<Rightarrow> Inl e
        | Inr st' \<Rightarrow> pass2Loop ys toks paragraphStart st')"
proof (induction xs arbitrary: st)
  case Nil
  show ?case by simp
next
  case (Cons d xs)
  obtain op chunk where d: "d = (op, chunk)" by (cases d)
  obtain idx anchor ops where st: "st = (idx, anchor, ops)" by (cases st)
  show ?case
    by (simp add: d st Cons.IH split: sum.splits option.splits)
qed

lemma consumeEqual_anchor:
  assumes "consumeEqual chunk toks (idx, anchor) = Inr (idx', anchor')"
    and "idx \<le> length toks" and "anchor = lastAnchor toks idx"
  shows "idx \<le> idx' \<and> idx' \<le> length toks \<and> anchor' = lastAnchor toks idx'"
proof -
  from consumeEqual_succeeds [OF assms(1)]
  have "idx \<le> idx'" and "idx \<le> length toks \<longrightarrow> idx' \<le> length toks"
    and "idx' = idx \<longrightarrow> anchor' = anchor"
    and "idx' \<noteq> idx \<longrightarrow> anchor' = Some (tok_range (toks ! (idx' - 1)))"
    by simp_all
  with assms(2,3) show ?thesis
    by (auto simp: lastAnchor_def)
qed

lemma wellAnchored_mono: "wellAnchored toks ps n op \<Longrightarrow> n \<le> m \<Longrightarrow> wellAnchored toks ps m op"
  unfolding wellAnchored_def by (meson less_le_trans)

lemma pass2Loop_inv:
  assumes "pass2Loop diffs toks ps (idx, anchor, ops) = Inr (idx', anchor', ops')"
    and "idx \<le> length toks" and "anchor = lastAnchor toks idx"
  shows "idx \<le> idx' \<and> idx' \<le> length toks \<and> anchor' = lastAnchor toks idx' \<and>
         (\<exists>new. ops' = ops @ new \<and> (\<forall>op\<in>set new. wellAnchored toks ps idx' op))"
  using assms
proof (induction diffs arbitrary: idx anchor ops)
  case Nil
  then show ?case by auto
next
  case (Cons d diffs)
  obtain op chunk where d: "d = (op, chunk)" by (cases d)
  show ?case
  proof (cases "op = 0")
    case True
    with Cons.prems(1) obtain idx1 anchor1 where
      eq: "consumeEqual chunk toks (idx, anchor) = Inr (idx1, anchor1)" and
      rest: "pass2Loop diffs toks ps (idx1, anchor1, ops) = Inr (idx', anchor', ops')"
      by (auto simp: d split: sum.splits)
    from consumeEqual_anchor [OF eq Cons.prems(2,3)]
    have 1: "idx \<le> idx1" "idx1 \<le> length toks" "anchor1 = lastAnchor toks idx1"
      by simp_all
    from Cons.IH [OF rest 1(2,3)] 1(1) show ?thesis
      by auto
  next
    case False
    show ?thesis
    proof (cases "op = 1")
      case True
      define new where "new = (case anchor of
          Some r \<Rightarrow> \<lparr>op_anchor = r, op_location = LocAfter, op_text = chunk\<rparr>
        | None \<Rightarrow> \<lparr>op_anchor = ps, op_location = LocBefore, op_text = chunk\<rparr>)"
      from True Cons.prems(1)
      have rest: "pass2Loop diffs toks ps (idx, anchor, ops @ [new]) = Inr (idx', anchor', ops')"
        by (auto simp: d new_def split: option.splits)
      from Cons.IH [OF rest Cons.prems(2,3)] obtain more where
        2: "idx \<le> idx'" "idx' \<le> length toks" "anchor' = lastAnchor toks idx'"
           "ops' = (ops @ [new]) @ more" "\<forall>op\<in>set more. wellAnchored toks ps idx' op"
        by blast
      have "wellAnchored toks ps idx new"
        using Cons.prems(3)
        by (auto simp: new_def wellAnchored_def lastAnchor_def split: option.splits if_splits
            intro!: exI [of _ "idx - 1"])
      then have "wellAnchored toks ps idx' new"
        using 2(1) by (rule wellAnchored_mono)
      with 2 have "ops' = ops @ (new # more) \<and> (\<forall>op\<in>set (new # more). wellAnchored toks ps idx' op)"
        by simp
      with 2(1-3) show ?thesis by blast
    next
      case False
      with \<open>op \<noteq> 0\<close> Cons.prems(1)
      have rest: "pass2Loop diffs toks ps (idx, anchor, ops) = Inr (idx', anchor', ops')"
        by (simp add: d)
      from Cons.IH [OF rest Cons.prems(2,3)] show ?thesis .
    qed
  qed
qed

lemma pass2_Inl:
  "pass2 diffs fineTokens deleteTargets ps = Inl e \<longleftrightarrow>
   pass2Loop diffs (tokensAfterDeletes fineTokens deleteTargets) ps (0, None, []) = Inl e"
  unfolding pass2_def by (auto split: sum.splits)

text \<open>
  Claim C2 (the alignment gate of Pass 2). While an Equal op has text left and surviving
  tokens remain, the next surviving token's text must be a prefix of the text left: where
  it is not, the loop fails at once with the token mismatch error. The loop fails exactly
  when, after some \<open>k\<close> tokens that were consumed as prefixes, text is left, a token remains
  and that token's text is not a prefix of the text left; when it succeeds, the tokens it
  consumed make up a prefix of the Equal text, and the text or the tokens are used up. A
  failure in an Equal op fails the whole pass whatever diff ops follow, and a failed pass
  fails the plan: no batch and so no insert is queued.
\<close>

theorem alignment_gate:
  "(textToConsume \<noteq> [] \<and> idx < length toks \<and> \<not> prefix (tok_text (toks ! idx)) textToConsume \<longrightarrow>
      consumeEqual textToConsume toks (idx, anchor) = Inl MapLookupFailed) \<and>
   (consumeEqual chunk toks (idx, anchor) = Inl MapLookupFailed \<longleftrightarrow>
      (\<exists>k. idx + k < length toks \<and> prefix (consumed toks idx k) chunk \<and>
           length (consumed toks idx k) < length chunk \<and>
           \<not> prefix (tok_text (toks ! (idx + k))) (drop (length (consumed toks idx k)) chunk))) \<and>
   (consumeEqual chunk toks (idx, anchor) = Inr (idx', anchor') \<longrightarrow>
      idx \<le> idx' \<and> prefix (consumed toks idx (idx' - idx)) chunk \<and>
      (length (consumed toks idx (idx' - idx)) = length chunk \<or> length toks \<le> idx')) \<and>
   (pass2Loop before toks ps st = Inr (idx, anchor, ops) \<and>
    consumeEqual chunk toks (idx, anchor) = Inl e \<longrightarrow>
      e = MapLookupFailed \<and> pass2Loop (before @ (0, chunk) # later) toks ps st = Inl e) \<and>
   (pass2 diffs fineTokens deleteTargets ps = Inl e \<longleftrightarrow>
      pass2Loop diffs (tokensAfterDeletes fineTokens deleteTargets) ps (0, None, []) = Inl e) \<and>
   (buildTokenMap search coarseRanges = Inr fineTokens \<and>
    pass2 diffs fineTokens (fst (pass1 diffs fineTokens)) ps = Inl e \<longrightarrow>
      planTokenMap hasCTM search coarseRanges ps diffs = Inl e)"
proof (intro conjI impI)
  assume "textToConsume \<noteq> [] \<and> idx < length toks \<and> \<not> prefix (tok_text (toks ! idx)) textToConsume"
  then show "consumeEqual textToConsume toks (idx, anchor) = Inl MapLookupFailed"
    by (subst consumeEqual.simps) simp
next
  show "consumeEqual chunk toks (idx, anchor) = Inl MapLookupFailed \<longleftrightarrow>
      (\<exists>k. idx + k < length toks \<and> prefix (consumed toks idx k) chunk \<and>
           length (consumed toks idx k) < length chunk \<and>
           \<not> prefix (tok_text (toks ! (idx + k))) (drop (length (consumed toks idx k)) chunk))"
    using consumeEqual_fails_pair [of chunk toks "(idx, anchor)"] by simp
next
  assume ok: "consumeEqual chunk toks (idx, anchor) = Inr (idx', anchor')"
  from consumeEqual_succeeds [OF ok]
  show "idx \<le> idx'" and "prefix (consumed toks idx (idx' - idx)) chunk"
    and "length (consumed toks idx (idx' - idx)) = length chunk \<or> length toks \<le> idx'"
    by simp_all
next
  assume a: "pass2Loop before toks ps st = Inr (idx, anchor, ops) \<and>
    consumeEqual chunk toks (idx, anchor) = Inl e"
  then show "e = MapLookupFailed"
    by (auto dest: consumeEqual_fails_only)
  from a show "pass2Loop (before @ (0, chunk) # later) toks ps st = Inl e"
    by (simp add: pass2Loop_append)
next
  show "pass2 diffs fineTokens deleteTargets ps = Inl e \<longleftrightarrow>
      pass2Loop diffs (tokensAfterDeletes fineTokens deleteTargets) ps (0, None, []) = Inl e"
    by (rule pass2_Inl)
next
  assume "buildTokenMap search coarseRanges = Inr fineTokens \<and>
    pass2 diffs fineTokens (fst (pass1 diffs fineTokens)) ps = Inl e"
  then show "planTokenMap hasCTM search coarseRanges ps diffs = Inl e"
    by (simp add: planTokenMap_def)
qed

text \<open>
  Insert anchoring, in range handles. When the ops before an Insert op have consumed \<open>idx\<close>
  surviving tokens, the remembered anchor is the handle of surviving token \<open>idx - 1\<close>, the one
  consumed last, and the Insert op is queued after that handle; when none has been consumed
  it is queued before the start of the paragraph. Every insert op of a plan is either after
  the handle of a token of the table that is not a delete target, or before the paragraph
  start. Where a token's handle lies in the document is the host's answer to the search.
\<close>

lemma insert_anchoring:
  "(pass2Loop before toks ps (0, None, []) = Inr (idx, anchor, ops) \<longrightarrow>
      idx \<le> length toks \<and>
      anchor = (if idx = 0 then None else Some (tok_range (toks ! (idx - 1)))) \<and>
      pass2Loop (before @ [(1, chunk)]) toks ps (0, None, [])
        = Inr (idx, anchor,
               ops @ [if idx = 0
                      then \<lparr>op_anchor = ps, op_location = LocBefore, op_text = chunk\<rparr>
                      else \<lparr>op_anchor = tok_range (toks ! (idx - 1)), op_location = LocAfter,
                            op_text = chunk\<rparr>])) \<and>
   (pass2 diffs fineTokens deleteTargets ps = Inr insertOps \<longrightarrow>
      (\<forall>op\<in>set insertOps.
         (op_location op = LocAfter \<and>
          (\<exists>t\<in>set (tokensAfterDeletes fineTokens deleteTargets). op_anchor op = tok_range t) \<and>
          (\<exists>t\<in>set fineTokens.
             tok_index t \<notin> tok_index ` set deleteTargets \<and> op_anchor op = tok_range t)) \<or>
         (op_location op = LocBefore \<and> op_anchor op = ps)))"
proof (intro conjI impI)
  assume run: "pass2Loop before toks ps (0, None, []) = Inr (idx, anchor, ops)"
  have init: "None = lastAnchor toks 0" by (simp add: lastAnchor_def)
  from pass2Loop_inv [OF run _ init]
  have idx: "idx \<le> length toks" and anchor: "anchor = lastAnchor toks idx"
    by simp_all
  from idx show "idx \<le> length toks" .
  from anchor show "anchor = (if idx = 0 then None else Some (tok_range (toks ! (idx - 1))))"
    by (simp add: lastAnchor_def)
  from run anchor show "pass2Loop (before @ [(1, chunk)]) toks ps (0, None, [])
        = Inr (idx, anchor,
               ops @ [if idx = 0
                      then \<lparr>op_anchor = ps, op_location = LocBefore, op_text = chunk\<rparr>
                      else \<lparr>op_anchor = tok_range (toks ! (idx - 1)), op_location = LocAfter,
                            op_text = chunk\<rparr>])"
    by (simp add: pass2Loop_append lastAnchor_def)
next
  let ?toks = "tokensAfterDeletes fineTokens deleteTargets"
  assume "pass2 diffs fineTokens deleteTargets ps = Inr insertOps"
  then obtain idx anchor where
    run: "pass2Loop diffs ?toks ps (0, None, []) = Inr (idx, anchor, insertOps)"
    unfolding pass2_def by (auto split: sum.splits)
  have init: "None = lastAnchor ?toks 0" by (simp add: lastAnchor_def)
  from pass2Loop_inv [OF run _ init]
  have idx: "idx \<le> length ?toks" and ops: "\<forall>op\<in>set insertOps. wellAnchored ?toks ps idx op"
    by simp_all
  show "\<forall>op\<in>set insertOps.
         (op_location op = LocAfter \<and> (\<exists>t\<in>set ?toks. op_anchor op = tok_range t) \<and>
          (\<exists>t\<in>set fineTokens.
             tok_index t \<notin> tok_index ` set deleteTargets \<and> op_anchor op = tok_range t)) \<or>
         (op_location op = LocBefore \<and> op_anchor op = ps)"
  proof
    fix op assume "op \<in> set insertOps"
    with ops have "wellAnchored ?toks ps idx op" ..
    then consider i where "op_location op = LocAfter" "i < idx" "op_anchor op = tok_range (?toks ! i)"
      | "op_location op = LocBefore" "op_anchor op = ps"
      unfolding wellAnchored_def by blast
    then show "(op_location op = LocAfter \<and> (\<exists>t\<in>set ?toks. op_anchor op = tok_range t) \<and>
          (\<exists>t\<in>set fineTokens.
             tok_index t \<notin> tok_index ` set deleteTargets \<and> op_anchor op = tok_range t)) \<or>
         (op_location op = LocBefore \<and> op_anchor op = ps)"
    proof cases
      case 1
      from 1(2) idx have mem: "?toks ! i \<in> set ?toks" by simp
      then have "?toks ! i \<in> set fineTokens"
        and "tok_index (?toks ! i) \<notin> tok_index ` set deleteTargets"
        unfolding tokensAfterDeletes_def by simp_all
      with 1 mem show ?thesis by blast
    next
      case 2
      then show ?thesis by simp
    qed
  qed
qed

theorem alignment_gate_witness:
  "consumeEqual (js ''c'')
     [\<lparr>tok_text = js ''a'', tok_range = 10::nat, tok_index = 0\<rparr>,
      \<lparr>tok_text = js '' '', tok_range = 11, tok_index = 1\<rparr>,
      \<lparr>tok_text = js ''b'', tok_range = 12, tok_index = 2\<rparr>] (2, Some 11) = Inl MapLookupFailed \<and>
   consumeEqual (js ''a '')
     [\<lparr>tok_text = js ''a'', tok_range = 10::nat, tok_index = 0\<rparr>,
      \<lparr>tok_text = js '' '', tok_range = 11, tok_index = 1\<rparr>,
      \<lparr>tok_text = js ''b'', tok_range = 12, tok_index = 2\<rparr>] (0, None) = Inr (2, Some 11) \<and>
   pass2Loop ([(0, js ''a ''), (1, js ''X'')] @ (0, js ''c'') # [(1, js ''Y'')])
     [\<lparr>tok_text = js ''a'', tok_range = 10::nat, tok_index = 0\<rparr>,
      \<lparr>tok_text = js '' '', tok_range = 11, tok_index = 1\<rparr>,
      \<lparr>tok_text = js ''b'', tok_range = 12, tok_index = 2\<rparr>] 99 (0, None, []) = Inl MapLookupFailed \<and>
   planTokenMap True (\<lambda>r t. [r]) [(10::nat, js ''a''), (11, js '' ''), (12, js ''b'')] 99
     [(0, js ''a ''), (1, js ''X''), (0, js ''c''), (1, js ''Y'')] = Inl MapLookupFailed"
proof -
  let ?toks = "[\<lparr>tok_text = js ''a'', tok_range = 10::nat, tok_index = 0\<rparr>,
      \<lparr>tok_text = js '' '', tok_range = 11, tok_index = 1\<rparr>,
      \<lparr>tok_text = js ''b'', tok_range = 12, tok_index = 2\<rparr>]"
  let ?coarse = "[(10::nat, js ''a''), (11, js '' ''), (12, js ''b'')]"
  let ?diffs = "[(0, js ''a ''), (1, js ''X''), (0, js ''c''), (1, js ''Y'')]"
  let ?X = "\<lparr>op_anchor = 11::nat, op_location = LocAfter, op_text = js ''X''\<rparr>"
  have mismatch: "js ''c'' \<noteq> [] \<and> 2 < length ?toks \<and> \<not> prefix (tok_text (?toks ! 2)) (js ''c'')"
    by (simp add: js_def)
  from alignment_gate [of "js ''c''" 2 ?toks "Some 11"] mismatch
  have fails: "consumeEqual (js ''c'') ?toks (2, Some 11) = Inl MapLookupFailed"
    by blast
  have ok: "consumeEqual (js ''a '') ?toks (0, None) = Inr (2, Some 11)"
    by (simp add: consumeEqual.simps js_def)
  have before: "pass2Loop [(0, js ''a ''), (1, js ''X'')] ?toks 99 (0, None, []) = Inr (2, Some 11, [?X])"
    by (simp add: consumeEqual.simps js_def)
  from alignment_gate [of _ 2 ?toks "Some 11" "js ''c''" _ _ "[(0, js ''a ''), (1, js ''X'')]" 99
      "(0, None, [])" "[?X]" MapLookupFailed "[(1, js ''Y'')]"] before fails
  have loop: "pass2Loop ([(0, js ''a ''), (1, js ''X'')] @ (0, js ''c'') # [(1, js ''Y'')]) ?toks 99
      (0, None, []) = Inl MapLookupFailed"
    by blast
  have built: "buildTokenMap (\<lambda>r t. [r]) ?coarse = Inr ?toks"
    by (simp add: buildTokenMap_def queueSearches_def assignIndex_def
        js_def classOf_def isWordChar_def isSpaceChar_def)
  have targets: "fst (pass1 ?diffs ?toks) = []"
    by (simp add: pass1_def)
  have "tokensAfterDeletes ?toks [] = ?toks"
    by (simp add: tokensAfterDeletes_def)
  with loop have planned: "pass2 ?diffs ?toks (fst (pass1 ?diffs ?toks)) 99 = Inl MapLookupFailed"
    unfolding targets pass2_def by simp
  from alignment_gate [of _ _ _ _ _ _ _ _ 99 _ _ MapLookupFailed _ ?diffs ?toks _ "\<lambda>r t. [r]" ?coarse True]
    built planned
  have plan: "planTokenMap True (\<lambda>r t. [r]) ?coarse 99 ?diffs = Inl MapLookupFailed"
    by blast
  from fails ok loop plan show ?thesis
    by (intro conjI)
qed

lemma insert_anchoring_example:
  "pass2Loop ([(0, js ''a '')] @ [(1, js ''X'')])
     [\<lparr>tok_text = js ''a'', tok_range = 10::nat, tok_index = 0\<rparr>,
      \<lparr>tok_text = js '' '', tok_range = 11, tok_index = 1\<rparr>,
      \<lparr>tok_text = js ''b'', tok_range = 12, tok_index = 2\<rparr>] 99 (0, None, [])
     = Inr (2, Some 11, [\<lparr>op_anchor = 11, op_location = LocAfter, op_text = js ''X''\<rparr>]) \<and>
   pass2Loop ([] @ [(1, js ''X'')])
     [\<lparr>tok_text = js ''a'', tok_range = 10::nat, tok_index = 0\<rparr>,
      \<lparr>tok_text = js '' '', tok_range = 11, tok_index = 1\<rparr>,
      \<lparr>tok_text = js ''b'', tok_range = 12, tok_index = 2\<rparr>] 99 (0, None, [])
     = Inr (0, None, [\<lparr>op_anchor = 99, op_location = LocBefore, op_text = js ''X''\<rparr>]) \<and>
   pass2 [(1, js ''Y''), (0, js ''a ''), (1, js ''X'')]
     [\<lparr>tok_text = js ''a'', tok_range = 10::nat, tok_index = 0\<rparr>,
      \<lparr>tok_text = js '' '', tok_range = 11, tok_index = 1\<rparr>,
      \<lparr>tok_text = js ''b'', tok_range = 12, tok_index = 2\<rparr>] [] 99
     = Inr [\<lparr>op_anchor = 99, op_location = LocBefore, op_text = js ''Y''\<rparr>,
            \<lparr>op_anchor = 11, op_location = LocAfter, op_text = js ''X''\<rparr>]"
proof -
  let ?toks = "[\<lparr>tok_text = js ''a'', tok_range = 10::nat, tok_index = 0\<rparr>,
      \<lparr>tok_text = js '' '', tok_range = 11, tok_index = 1\<rparr>,
      \<lparr>tok_text = js ''b'', tok_range = 12, tok_index = 2\<rparr>]"
  have before: "pass2Loop [(0, js ''a '')] ?toks 99 (0, None, []) = Inr (2, Some 11, [])"
    by (simp add: consumeEqual.simps js_def)
  from insert_anchoring [of "[(0, js ''a '')]" ?toks 99 2 "Some 11" "[]" "js ''X''" "[]" "[]" "[]" "[]"]
    before
  have after: "pass2Loop ([(0, js ''a '')] @ [(1, js ''X'')]) ?toks 99 (0, None, [])
     = Inr (2, Some 11, [\<lparr>op_anchor = 11, op_location = LocAfter, op_text = js ''X''\<rparr>])"
    by simp
  have none: "pass2Loop [] ?toks 99 (0, None, []) = Inr (0, None, [])"
    by simp
  from insert_anchoring [of "[]" ?toks 99 0 None "[]" "js ''X''" "[]" "[]" "[]" "[]"] none
  have start: "pass2Loop ([] @ [(1, js ''X'')]) ?toks 99 (0, None, [])
     = Inr (0, None, [\<lparr>op_anchor = 99, op_location = LocBefore, op_text = js ''X''\<rparr>])"
    by simp
  have whole: "pass2 [(1, js ''Y''), (0, js ''a ''), (1, js ''X'')] ?toks [] 99
     = Inr [\<lparr>op_anchor = 99, op_location = LocBefore, op_text = js ''Y''\<rparr>,
            \<lparr>op_anchor = 11, op_location = LocAfter, op_text = js ''X''\<rparr>]"
    by (simp add: pass2_def tokensAfterDeletes_def consumeEqual.simps js_def)
  from after start whole show ?thesis
    by (intro conjI)
qed

subsection \<open>The review request\<close>

lemma settle_Returned: "settle evs (Returned out, w) = (Returned out, w)"
  by (induction evs) simp_all

lemma resume_cases:
  assumes "resume ev pc w = (pc', w')"
  shows "(active pc \<and> active pc' \<and> isProcessing w' = isProcessing w) \<or>
         (active pc \<and> (\<exists>out. pc' = Returned out \<and> out \<noteq> Busy) \<and> \<not> isProcessing w') \<or>
         (pc = Entry \<and> active pc' \<and> \<not> isProcessing w \<and> isProcessing w') \<or>
         (\<not> active pc \<and> \<not> active pc' \<and> w' = w)"
  using assms by (cases "(ev, pc, w)" rule: resume.cases) (auto split: if_splits)

lemma settle_active:
  "active pc \<Longrightarrow> settle evs (pc, w) = (Returned out, w') \<Longrightarrow> \<not> isProcessing w' \<and> out \<noteq> Busy"
proof (induction evs arbitrary: pc w)
  case Nil
  then show ?case by (cases pc) simp_all
next
  case (Cons ev evs)
  obtain pc1 w1 where r: "resume ev pc w = (pc1, w1)" by (cases "resume ev pc w")
  with Cons.prems have rest: "settle evs (pc1, w1) = (Returned out, w')" by simp
  from resume_cases [OF r] Cons.prems(1)
  consider "active pc1" | out1 where "pc1 = Returned out1" "out1 \<noteq> Busy" "\<not> isProcessing w1"
    by auto
  then show ?case
  proof cases
    case 1
    from Cons.IH [OF this rest] show ?thesis .
  next
    case 2
    with rest show ?thesis by (simp add: settle_Returned)
  qed
qed

lemma handleReviewSelection_returns:
  assumes "handleReviewSelection promptValue settled w = (Returned out, w')" and "out \<noteq> Busy"
  shows "\<not> isProcessing w'"
proof -
  obtain pc1 w1 where r: "resume (Click promptValue) Entry w = (pc1, w1)"
    by (cases "resume (Click promptValue) Entry w")
  with assms(1) have rest: "settle settled (pc1, w1) = (Returned out, w')"
    by (simp add: handleReviewSelection_def)
  from r consider "pc1 = Returned Busy" | "pc1 = Returned NoPrompt" "w1 = w" "\<not> isProcessing w"
    | "active pc1"
    by (auto split: if_splits)
  then show ?thesis
  proof cases
    case 1
    with rest assms(2) show ?thesis by (simp add: settle_Returned)
  next
    case 2
    with rest show ?thesis by (simp add: settle_Returned)
  next
    case 3
    from settle_active [OF this rest] show ?thesis by simp
  qed
qed

lemma length_filter_update:
  "i < length xs \<Longrightarrow>
   length (filter P (xs[i := y])) + (if P (xs ! i) then 1 else 0)
     = length (filter P xs) + (if P y then 1 else 0)"
proof (induction xs arbitrary: i)
  case Nil
  then show ?case by simp
next
  case (Cons x xs)
  then show ?case by (cases i) auto
qed

lemma reachable_count:
  "reachable s \<Longrightarrow> length (filter active (snd s)) = (if isProcessing (fst s) then 1 else 0)"
proof (induction rule: reachable.induct)
  case (start w n)
  then show ?case by simp
next
  case (step w pcs i ev pc' w')
  from length_filter_update [OF step.hyps(2), of active pc']
  have upd: "length (filter active (pcs[i := pc'])) + (if active (pcs ! i) then 1 else 0)
     = length (filter active pcs) + (if active pc' then 1 else 0)" .
  from step.IH have inv: "length (filter active pcs) = (if isProcessing w then 1 else 0)"
    by simp
  have pos: "active (pcs ! i) \<Longrightarrow> 0 < length (filter active pcs)"
    using step.hyps(2) nth_mem [of i pcs] by (auto simp: filter_empty_conv)
  from resume_cases [OF step.hyps(3)] upd inv pos show ?case
    by (auto split: if_splits)
qed

lemma filter_two:
  assumes "i < length xs" "j < length xs" "i \<noteq> j" "P (xs ! i)" "P (xs ! j)"
  shows "2 \<le> length (filter P xs)"
proof -
  from assms have "{i, j} \<subseteq> {k. k < length xs \<and> P (xs ! k)}" by auto
  then have "card {i, j} \<le> card {k. k < length xs \<and> P (xs ! k)}"
    by (intro card_mono) auto
  with assms(3) show ?thesis by (simp add: length_filter_conv_card)
qed

text \<open>
  Claim C10 (re-entrancy guard). An invocation that finds \<^verbatim>\<open>isProcessing\<close> set returns at
  once and leaves the world as it is: no selection is read, no LLM is called, nothing is
  queued. An invocation that got past the guard and has returned has left the flag down,
  whether it succeeded or caught an error. Over any interleaving of invocations at their
  suspension points, the number of invocations in progress is one when the flag is up and
  none when it is down, so at most one of them is applying changes to the document.
\<close>

theorem reentrancy_guard:
  "(isProcessing w \<longrightarrow> handleReviewSelection promptValue settled w = (Returned Busy, w)) \<and>
   (handleReviewSelection promptValue settled w = (Returned out, w') \<and> out \<noteq> Busy \<longrightarrow>
      \<not> isProcessing w') \<and>
   (reachable (w, pcs) \<longrightarrow> length (filter active pcs) = (if isProcessing w then 1 else 0)) \<and>
   (reachable (w, pcs) \<and> i < length pcs \<and> j < length pcs \<and>
    pcs ! i = AwaitApply \<and> pcs ! j = AwaitApply \<longrightarrow> i = j)"
proof (intro conjI impI)
  assume "isProcessing w"
  then show "handleReviewSelection promptValue settled w = (Returned Busy, w)"
    by (simp add: handleReviewSelection_def settle_Returned)
next
  assume "handleReviewSelection promptValue settled w = (Returned out, w') \<and> out \<noteq> Busy"
  then show "\<not> isProcessing w'"
    using handleReviewSelection_returns by blast
next
  assume "reachable (w, pcs)"
  from reachable_count [OF this]
  show "length (filter active pcs) = (if isProcessing w then 1 else 0)" by simp
next
  assume a: "reachable (w, pcs) \<and> i < length pcs \<and> j < length pcs \<and>
    pcs ! i = AwaitApply \<and> pcs ! j = AwaitApply"
  show "i = j"
  proof (rule ccontr)
    assume "i \<noteq> j"
    with a have "2 \<le> length (filter active pcs)"
      by (intro filter_two [of i pcs j]) simp_all
    moreover from a have "length (filter active pcs) \<le> 1"
      using reachable_count [of "(w, pcs)"] by (simp split: if_splits)
    ultimately show False by simp
  qed
qed

lemma mutationNeeds_Cons: "mutationNeeds pc evs \<Longrightarrow> mutationNeeds pc (ev # evs)"
  by (cases pc) auto

lemma resume_shape:
  assumes "resume ev pc w = (pc1, w1)"
  shows "(pc1 = pc \<and> w1 = w) \<or>
         (pc = Entry \<and> (\<exists>p. pc1 = AwaitSelection p) \<and>
            filter isMutation (effects w1) = filter isMutation (effects w)) \<or>
         (\<exists>p sel. pc = AwaitSelection p \<and> ev = SelectionLoaded sel \<and> sel \<noteq> [] \<and> jsTrim sel \<noteq> [] \<and>
            pc1 = AwaitLLM sel \<and> filter isMutation (effects w1) = filter isMutation (effects w)) \<or>
         (\<exists>sel response. pc = AwaitLLM sel \<and> ev = LLMResolved (Some response)) \<or>
         ((\<exists>out. pc1 = Returned out) \<and>
            filter isMutation (effects w1) = filter isMutation (effects w))"
  using assms
  by (cases "(ev, pc, w)" rule: resume.cases) (auto split: if_splits)

lemma resume_mutation:
  assumes "resume ev pc w = (pc1, w1)"
  shows "(filter isMutation (effects w1) = filter isMutation (effects w) \<and>
          (mutationNeeds pc1 evs \<longrightarrow> mutationNeeds pc (ev # evs))) \<or>
         (\<exists>selectionText response. pc = AwaitLLM selectionText \<and> ev = LLMResolved (Some response))"
proof -
  from resume_shape [OF assms]
  consider "pc1 = pc" "w1 = w"
    | p where "pc = Entry" "pc1 = AwaitSelection p"
        "filter isMutation (effects w1) = filter isMutation (effects w)"
    | p sel where "pc = AwaitSelection p" "ev = SelectionLoaded sel" "sel \<noteq> []" "jsTrim sel \<noteq> []"
        "pc1 = AwaitLLM sel" "filter isMutation (effects w1) = filter isMutation (effects w)"
    | sel response where "pc = AwaitLLM sel" "ev = LLMResolved (Some response)"
    | out where "pc1 = Returned out" "filter isMutation (effects w1) = filter isMutation (effects w)"
    by blast
  then show ?thesis
  proof cases
    case 1
    then show ?thesis by (simp add: mutationNeeds_Cons)
  next
    case 2
    then show ?thesis by auto
  next
    case 3
    then show ?thesis by auto
  next
    case 4
    then show ?thesis by simp
  next
    case 5
    then show ?thesis by simp
  qed
qed

lemma settle_mutation:
  "filter isMutation (effects (snd (settle evs (pc, w)))) \<noteq> filter isMutation (effects w)
   \<Longrightarrow> mutationNeeds pc evs"
proof (induction evs arbitrary: pc w)
  case Nil
  then show ?case by simp
next
  case (Cons ev evs)
  obtain pc1 w1 where r: "resume ev pc w = (pc1, w1)" by (cases "resume ev pc w")
  from resume_mutation [OF r, of evs]
  consider "filter isMutation (effects w1) = filter isMutation (effects w)"
      "mutationNeeds pc1 evs \<longrightarrow> mutationNeeds pc (ev # evs)"
    | selectionText response where "pc = AwaitLLM selectionText" "ev = LLMResolved (Some response)"
    by blast
  then show ?case
  proof cases
    case 1
    with Cons.prems r
    have "filter isMutation (effects (snd (settle evs (pc1, w1)))) \<noteq> filter isMutation (effects w1)"
      by simp
    from Cons.IH [OF this] 1(2) show ?thesis by simp
  next
    case 2
    then show ?thesis by auto
  qed
qed

text \<open>
  Claim C9 (input errors), as amended. An empty or white-space-only selection is rejected
  before any document mutation is attempted: the invocation throws and catches the error
  of the missing selection, its only effect is the load of the selection's text, and the flag is
  down again. A document mutation is attempted only after a loaded selection that is not
  blank and after the LLM resolved with a response string.
\<close>

theorem selection_gate:
  "(\<not> isProcessing w \<and> jsTrim promptValue \<noteq> [] \<and> (selectionText = [] \<or> jsTrim selectionText = []) \<longrightarrow>
      fst (handleReviewSelection promptValue (SelectionLoaded selectionText # settled) w)
        = Returned (Caught NoSelection) \<and>
      effects (snd (handleReviewSelection promptValue (SelectionLoaded selectionText # settled) w))
        = effects w @ [LoadSelectionText] \<and>
      \<not> isProcessing (snd (handleReviewSelection promptValue (SelectionLoaded selectionText # settled) w))) \<and>
   (filter isMutation (effects (snd (handleReviewSelection promptValue settled w)))
      \<noteq> filter isMutation (effects w) \<longrightarrow>
      (\<exists>selectionText response.
         SelectionLoaded selectionText \<in> set settled \<and> selectionText \<noteq> [] \<and>
         jsTrim selectionText \<noteq> [] \<and> LLMResolved (Some response) \<in> set settled))"
proof (intro conjI impI)
  assume a: "\<not> isProcessing w \<and> jsTrim promptValue \<noteq> [] \<and>
    (selectionText = [] \<or> jsTrim selectionText = [])"
  then have run: "handleReviewSelection promptValue (SelectionLoaded selectionText # settled) w
      = (Returned (Caught NoSelection),
         w\<lparr>isProcessing := False, effects := effects w @ [LoadSelectionText]\<rparr>)"
    by (auto simp: handleReviewSelection_def settle_Returned)
  show "fst (handleReviewSelection promptValue (SelectionLoaded selectionText # settled) w)
        = Returned (Caught NoSelection)"
    and "effects (snd (handleReviewSelection promptValue (SelectionLoaded selectionText # settled) w))
        = effects w @ [LoadSelectionText]"
    and "\<not> isProcessing (snd (handleReviewSelection promptValue (SelectionLoaded selectionText # settled) w))"
    unfolding run by simp_all
next
  assume m: "filter isMutation (effects (snd (handleReviewSelection promptValue settled w)))
      \<noteq> filter isMutation (effects w)"
  obtain pc1 w1 where r: "resume (Click promptValue) Entry w = (pc1, w1)"
    by (cases "resume (Click promptValue) Entry w")
  then have same: "filter isMutation (effects w1) = filter isMutation (effects w)"
    and pc1: "pc1 = Returned Busy \<or> pc1 = Returned NoPrompt \<or> (\<exists>p. pc1 = AwaitSelection p)"
    by (auto split: if_splits)
  from m r same
  have "filter isMutation (effects (snd (settle settled (pc1, w1)))) \<noteq> filter isMutation (effects w1)"
    by (simp add: handleReviewSelection_def)
  from settle_mutation [OF this] pc1
  show "\<exists>selectionText response.
         SelectionLoaded selectionText \<in> set settled \<and> selectionText \<noteq> [] \<and>
         jsTrim selectionText \<noteq> [] \<and> LLMResolved (Some response) \<in> set settled"
    by auto
qed

text \<open>
  Against claim C9 as stated: with a selection \<^verbatim>\<open>abc\<close> and the empty string as the LLM's
  response, the invocation is not rejected; it queues the change-tracking mode and calls the
  token map strategy with the empty revised text.
\<close>

theorem empty_revised_text_counterexample:
  "handleReviewSelection (js ''fix'') [SelectionLoaded (js ''abc''), LLMResolved (Some [])]
     \<lparr>isProcessing = False, trackChangesEnabled = True, lineDiffEnabled = False,
      hasChangeTrackingMode = True, effects = []\<rparr>
   = (AwaitApply,
      \<lparr>isProcessing = True, trackChangesEnabled = True, lineDiffEnabled = False,
       hasChangeTrackingMode = True,
       effects = [LoadSelectionText, SendPromptToLLM (js ''fix'') (js ''abc''), GetSelection,
                  QueueChangeTrackingMode TrackAll,
                  ApplyStrategy TokenMapStrategy (js ''abc'') []]\<rparr>)"
  by (simp add: handleReviewSelection_def jsTrim_def js_def isSpaceChar_def)

theorem selection_gate_witness:
  "fst (handleReviewSelection (js ''fix'') (SelectionLoaded (js ''  '') # [])
     \<lparr>isProcessing = False, trackChangesEnabled = True, lineDiffEnabled = False,
      hasChangeTrackingMode = True, effects = []\<rparr>) = Returned (Caught NoSelection) \<and>
   effects (snd (handleReviewSelection (js ''fix'') (SelectionLoaded (js ''  '') # [])
     \<lparr>isProcessing = False, trackChangesEnabled = True, lineDiffEnabled = False,
      hasChangeTrackingMode = True, effects = []\<rparr>)) = [LoadSelectionText] \<and>
   filter isMutation (effects (snd (handleReviewSelection (js ''fix'')
       [SelectionLoaded (js ''abc''), LLMResolved (Some (js ''abd''))]
     \<lparr>isProcessing = False, trackChangesEnabled = True, lineDiffEnabled = False,
      hasChangeTrackingMode = True, effects = []\<rparr>)))
     = [QueueChangeTrackingMode TrackAll, ApplyStrategy TokenMapStrategy (js ''abc'') (js ''abd'')] \<and>
   (\<exists>selectionText response.
      SelectionLoaded selectionText \<in> set [SelectionLoaded (js ''abc''), LLMResolved (Some (js ''abd''))] \<and>
      selectionText \<noteq> [] \<and> jsTrim selectionText \<noteq> [] \<and>
      LLMResolved (Some response) \<in> set [SelectionLoaded (js ''abc''), LLMResolved (Some (js ''abd''))])"
proof -
  let ?w = "\<lparr>isProcessing = False, trackChangesEnabled = True, lineDiffEnabled = False,
      hasChangeTrackingMode = True, effects = []\<rparr>"
  let ?evs = "[SelectionLoaded (js ''abc''), LLMResolved (Some (js ''abd''))]"
  have blank: "\<not> isProcessing ?w \<and> jsTrim (js ''fix'') \<noteq> [] \<and>
      (js ''  '' = [] \<or> jsTrim (js ''  '') = [])"
    by (simp add: jsTrim_def js_def isSpaceChar_def)
  from selection_gate [of ?w "js ''fix''" "js ''  ''" "[]"] blank
  have rejected: "fst (handleReviewSelection (js ''fix'') (SelectionLoaded (js ''  '') # []) ?w)
        = Returned (Caught NoSelection) \<and>
      effects (snd (handleReviewSelection (js ''fix'') (SelectionLoaded (js ''  '') # []) ?w))
        = [LoadSelectionText]"
    by simp
  have muts: "filter isMutation (effects (snd (handleReviewSelection (js ''fix'') ?evs ?w)))
     = [QueueChangeTrackingMode TrackAll, ApplyStrategy TokenMapStrategy (js ''abc'') (js ''abd'')]"
    by (simp add: handleReviewSelection_def jsTrim_def js_def isSpaceChar_def)
  then have "filter isMutation (effects (snd (handleReviewSelection (js ''fix'') ?evs ?w)))
     \<noteq> filter isMutation (effects ?w)"
    by simp
  with selection_gate [of ?w "js ''fix''" "[]" ?evs]
  have needs: "\<exists>selectionText response.
      SelectionLoaded selectionText \<in> set ?evs \<and> selectionText \<noteq> [] \<and> jsTrim selectionText \<noteq> [] \<and>
      LLMResolved (Some response) \<in> set ?evs"
    by blast
  from rejected muts needs show ?thesis
    by (intro conjI) simp_all
qed

theorem reentrancy_guard_witness:
  "handleReviewSelection (js ''fix'') [SelectionLoaded (js ''abc'')]
     \<lparr>isProcessing = True, trackChangesEnabled = True, lineDiffEnabled = False,
      hasChangeTrackingMode = True, effects = []\<rparr>
   = (Returned Busy,
      \<lparr>isProcessing = True, trackChangesEnabled = True, lineDiffEnabled = False,
       hasChangeTrackingMode = True, effects = []\<rparr>) \<and>
   handleReviewSelection (js ''fix'')
     [SelectionLoaded (js ''abc''), LLMResolved (Some (js ''abd'')), StrategyRejected]
     \<lparr>isProcessing = False, trackChangesEnabled = True, lineDiffEnabled = False,
      hasChangeTrackingMode = True, effects = []\<rparr>
   = (Returned (Caught StrategyFailed),
      \<lparr>isProcessing = False, trackChangesEnabled = True, lineDiffEnabled = False,
       hasChangeTrackingMode = True,
       effects = [LoadSelectionText, SendPromptToLLM (js ''fix'') (js ''abc''), GetSelection,
                  QueueChangeTrackingMode TrackAll,
                  ApplyStrategy TokenMapStrategy (js ''abc'') (js ''abd'')]\<rparr>) \<and>
   reachable
     (\<lparr>isProcessing = True, trackChangesEnabled = True, lineDiffEnabled = False,
       hasChangeTrackingMode = True,
       effects = [LoadSelectionText, SendPromptToLLM (js ''fix'') (js ''abc''), GetSelection,
                  QueueChangeTrackingMode TrackAll,
                  ApplyStrategy TokenMapStrategy (js ''abc'') (js ''abd'')]\<rparr>,
      [AwaitApply, Returned Busy]) \<and>
   length (filter active [AwaitApply, Returned Busy]) = 1"
proof -
  let ?w0 = "\<lparr>isProcessing = False, trackChangesEnabled = True, lineDiffEnabled = False,
      hasChangeTrackingMode = True, effects = []\<rparr>"
  let ?busy = "\<lparr>isProcessing = True, trackChangesEnabled = True, lineDiffEnabled = False,
      hasChangeTrackingMode = True, effects = []\<rparr>"
  let ?w1 = "\<lparr>isProcessing = True, trackChangesEnabled = True, lineDiffEnabled = False,
      hasChangeTrackingMode = True, effects = [LoadSelectionText]\<rparr>"
  let ?w2 = "\<lparr>isProcessing = True, trackChangesEnabled = True, lineDiffEnabled = False,
      hasChangeTrackingMode = True,
      effects = [LoadSelectionText, SendPromptToLLM (js ''fix'') (js ''abc'')]\<rparr>"
  let ?w3 = "\<lparr>isProcessing = True, trackChangesEnabled = True, lineDiffEnabled = False,
       hasChangeTrackingMode = True,
       effects = [LoadSelectionText, SendPromptToLLM (js ''fix'') (js ''abc''), GetSelection,
                  QueueChangeTrackingMode TrackAll,
                  ApplyStrategy TokenMapStrategy (js ''abc'') (js ''abd'')]\<rparr>"
  let ?done = "\<lparr>isProcessing = False, trackChangesEnabled = True, lineDiffEnabled = False,
       hasChangeTrackingMode = True,
       effects = [LoadSelectionText, SendPromptToLLM (js ''fix'') (js ''abc''), GetSelection,
                  QueueChangeTrackingMode TrackAll,
                  ApplyStrategy TokenMapStrategy (js ''abc'') (js ''abd'')]\<rparr>"
  have trim: "jsTrim (js ''fix'') = js ''fix''" "jsTrim (js ''abc'') = js ''abc''"
    by (simp_all add: jsTrim_def js_def isSpaceChar_def)
  have nonempty: "js ''fix'' \<noteq> []" "js ''abc'' \<noteq> []"
    by (simp_all add: js_def)
  from reentrancy_guard [of ?busy "js ''fix''" "[SelectionLoaded (js ''abc'')]"]
  have busy: "handleReviewSelection (js ''fix'') [SelectionLoaded (js ''abc'')] ?busy
      = (Returned Busy, ?busy)"
    by simp
  have run: "handleReviewSelection (js ''fix'')
     [SelectionLoaded (js ''abc''), LLMResolved (Some (js ''abd'')), StrategyRejected] ?w0
     = (Returned (Caught StrategyFailed), ?done)"
    by (simp add: handleReviewSelection_def trim nonempty)
  from reentrancy_guard [of ?w0 "js ''fix''"
      "[SelectionLoaded (js ''abc''), LLMResolved (Some (js ''abd'')), StrategyRejected]"
      "Caught StrategyFailed" ?done] run
  have "\<not> isProcessing ?done"
    by blast
  have r0: "reachable (?w0, replicate 2 Entry)"
    by (rule reachable.start) simp
  have r1: "reachable (?w1, [AwaitSelection (js ''fix''), Entry])"
    using reachable.step [OF r0, of 0 "Click (js ''fix'')" "AwaitSelection (js ''fix'')" ?w1]
    by (simp add: trim nonempty numeral_2_eq_2)
  have r2: "reachable (?w1, [AwaitSelection (js ''fix''), Returned Busy])"
    using reachable.step [OF r1, of 1 "Click (js ''fix'')" "Returned Busy" ?w1]
    by simp
  have r3: "reachable (?w2, [AwaitLLM (js ''abc''), Returned Busy])"
    using reachable.step [OF r2, of 0 "SelectionLoaded (js ''abc'')" "AwaitLLM (js ''abc'')" ?w2]
    by (simp add: trim nonempty)
  have r4: "reachable (?w3, [AwaitApply, Returned Busy])"
    using reachable.step [OF r3, of 0 "LLMResolved (Some (js ''abd''))" AwaitApply ?w3]
    by simp
  from reentrancy_guard [of ?w3 _ _ _ _ "[AwaitApply, Returned Busy]" 0 0] r4
  have count: "length (filter active [AwaitApply, Returned Busy]) = 1"
    by simp
  from busy run r4 count show ?thesis
    by (intro conjI)
qed

subsection \<open>The differ\<close>

lemma originalOf_simps:
  "originalOf [] = []"
  "originalOf ((op, t) # ds) = (if op = 0 \<or> op = -1 then t @ originalOf ds else originalOf ds)"
  by (simp_all add: originalOf_def)

lemma revisedOf_simps:
  "revisedOf [] = []"
  "revisedOf ((op, t) # ds) = (if op = 0 \<or> op = 1 then t @ revisedOf ds else revisedOf ds)"
  by (simp_all add: revisedOf_def)

lemma originalOf_inserts: "originalOf (map (\<lambda>t. (1, t)) ys) = []"
  by (induction ys) (simp_all add: originalOf_simps)

lemma originalOf_deletes: "originalOf (map (\<lambda>t. (-1, t)) xs) = concat xs"
  by (induction xs) (simp_all add: originalOf_simps)

lemma revisedOf_inserts: "revisedOf (map (\<lambda>t. (1, t)) ys) = concat ys"
  by (induction ys) (simp_all add: revisedOf_simps)

lemma revisedOf_deletes: "revisedOf (map (\<lambda>t. (-1, t)) xs) = []"
  by (induction xs) (simp_all add: revisedOf_simps)

lemma originalOf_diffTokens: "originalOf (diffTokens xs ys) = concat xs"
  by (induction xs ys rule: diffTokens.induct)
    (simp_all add: originalOf_simps originalOf_inserts originalOf_deletes)

lemma revisedOf_diffTokens: "revisedOf (diffTokens xs ys) = concat ys"
  by (induction xs ys rule: diffTokens.induct)
    (simp_all add: revisedOf_simps revisedOf_inserts revisedOf_deletes)

lemma opcodes_diffTokens: "fst ` set (diffTokens xs ys) \<subseteq> {-1, 0, 1}"
  by (induction xs ys rule: diffTokens.induct) auto

lemma originalOf_mergeOps: "originalOf (mergeOps ds) = originalOf ds"
  by (induction ds rule: mergeOps.induct) (auto simp: originalOf_simps split: if_splits)

lemma revisedOf_mergeOps: "revisedOf (mergeOps ds) = revisedOf ds"
  by (induction ds rule: mergeOps.induct) (auto simp: revisedOf_simps split: if_splits)

lemma opcodes_mergeOps: "fst ` set (mergeOps ds) = fst ` set ds"
  by (induction ds rule: mergeOps.induct) auto

lemma computeDiffWith_roundtrip:
  assumes "concat (tokens original) = original" and "concat (tokens revised) = revised"
  shows "originalOf (computeDiffWith tokens original revised) = original"
    and "revisedOf (computeDiffWith tokens original revised) = revised"
  using assms
  by (simp_all add: computeDiffWith_def originalOf_mergeOps revisedOf_mergeOps
      originalOf_diffTokens revisedOf_diffTokens)

text \<open>
  Claim C3 (round trip of the differ), against the differ modelled from the spec. For every
  pair of strings the script's op codes are among \<open>-1\<close>, \<open>0\<close>, \<open>1\<close>, its Equal and Delete
  text is the original string and its Equal and Insert text is the revised string; the
  differ is total.
\<close>

theorem computeDiff_roundtrip:
  "fst ` set (computeDiff original revised) \<subseteq> {-1, 0, 1} \<and>
   originalOf (computeDiff original revised) = original \<and>
   revisedOf (computeDiff original revised) = revised"
  unfolding computeDiff_def
  by (simp add: computeDiffWith_roundtrip dmpRegexMatch_concat)
    (simp add: computeDiffWith_def opcodes_mergeOps opcodes_diffTokens)

text \<open>The spec's scenario 6.\<close>

lemma scenario6: "computeDiff (js ''Start End'') (js ''Start Middle End'')
     = [(0, js ''Start ''), (1, js ''Middle ''), (0, js ''End'')]"
  by (simp add: computeDiff_def computeDiffWith_def editCost_def js_def classOf_def
      isWordChar_def isSpaceChar_def)

theorem computeDiff_roundtrip_witness:
  "computeDiff (js ''Start End'') (js ''Start Middle End'')
     = [(0, js ''Start ''), (1, js ''Middle ''), (0, js ''End'')] \<and>
   originalOf [(0, js ''Start ''), (1, js ''Middle ''), (0, js ''End'')] = js ''Start End'' \<and>
   revisedOf [(0, js ''Start ''), (1, js ''Middle ''), (0, js ''End'')] = js ''Start Middle End''"
  using computeDiff_roundtrip [of "js ''Start End''" "js ''Start Middle End''"]
  unfolding scenario6 by simp

subsection \<open>The whole function and its \<^verbatim>\<open>catch\<close> block\<close>

text \<open>
  On any host: without WordApi 1.4 nothing is done; a rejected SYNC 1 leaves the function;
  a failed plan or a rejected SYNC 4 enters the \<^verbatim>\<open>catch\<close> block, on the document as the
  failure left it; the block commits \<^verbatim>\<open>clear\<close> and \<^verbatim>\<open>insertText(text1, start)\<close> before the
  secondary strategy is called, and calls it on the document that commit left.
\<close>

lemma verifyTokenMapStrategy_unsupported:
  "\<not> wordApi14 h \<Longrightarrow> verifyTokenMapStrategy h differ secondary text1 text2 d = Skipped d"
  by (simp add: verifyTokenMapStrategy_def)

lemma verifyTokenMapStrategy_setup_rejected:
  "wordApi14 h \<Longrightarrow> insertParagraphs h text1 d = (Some e, d0) \<Longrightarrow>
   verifyTokenMapStrategy h differ secondary text1 text2 d = Threw e d0"
  by (simp add: verifyTokenMapStrategy_def)

lemma verifyTokenMapStrategy_read_fails:
  assumes "wordApi14 h" and "insertParagraphs h text1 d = (None, d0)"
    and "differ text1 text2 = Inl e \<or> getTextRanges h d0 = Inl e \<or> searchItems h d0 = Inl e"
  shows "verifyTokenMapStrategy h differ secondary text1 text2 d
           = catchBlock h secondary text1 text2 d0"
  using assms by (auto simp: verifyTokenMapStrategy_def split: sum.splits)

lemma verifyTokenMapStrategy_plan_fails:
  assumes "wordApi14 h" and "insertParagraphs h text1 d = (None, d0)"
    and "differ text1 text2 = Inr diffs"
    and "getTextRanges h d0 = Inr coarseRanges" and "searchItems h d0 = Inr search"
    and "planTokenMap (changeTrackingModeDefined h) search coarseRanges (getRangeStart h) diffs
           = Inl e"
  shows "verifyTokenMapStrategy h differ secondary text1 text2 d
           = catchBlock h secondary text1 text2 d0"
  using assms by (simp add: verifyTokenMapStrategy_def)

lemma verifyTokenMapStrategy_commit_rejected:
  assumes "wordApi14 h" and "insertParagraphs h text1 d = (None, d0)"
    and "differ text1 text2 = Inr diffs"
    and "getTextRanges h d0 = Inr coarseRanges" and "searchItems h d0 = Inr search"
    and "planTokenMap (changeTrackingModeDefined h) search coarseRanges (getRangeStart h) diffs
           = Inr batch"
    and "sync h batch d0 = (Some e, d1)"
  shows "verifyTokenMapStrategy h differ secondary text1 text2 d
           = catchBlock h secondary text1 text2 d1"
  using assms by (simp add: verifyTokenMapStrategy_def)

lemma catchBlock_reset_rejected:
  "sync h [ParagraphClear, ParagraphInsertText text1 LocStart] d = (Some e, d') \<Longrightarrow>
   catchBlock h secondary text1 text2 d = Threw e d'"
  by (simp add: catchBlock_def)

lemma catchBlock_secondary:
  "sync h [ParagraphClear, ParagraphInsertText text1 LocStart] d = (None, d') \<Longrightarrow>
   catchBlock h secondary text1 text2 d
     = (case secondary d' text1 text2 of
          (Some e, d'') \<Rightarrow> Threw e d''
        | (None, d'') \<Rightarrow> Completed d'')"
  by (simp add: catchBlock_def)

subsection \<open>The flat host\<close>



lemma flat_search:
  "flatSearch (js ''2020-20'') (0, 7) (js ''2020'') = [(0, 4)]"
  "flatSearch (js ''2020-20'') (0, 7) (js ''-'') = [(4, 1)]"
  "flatSearch (js ''2020-20'') (0, 7) (js ''20'') = [(0, 2), (2, 2), (5, 2)]"
  by (simp_all add: flatSearch_def js_def)


text \<open>The differ modelled from the spec gives the diff used below for \<^verbatim>\<open>2020-20\<close> and
  \<^verbatim>\<open>2020-20!\<close>.\<close>

lemma flat_diff: "computeDiff (js ''2020-20'') (js ''2020-20!'') = [(0, js ''2020-20''), (1, js ''!'')]"
  by (simp add: computeDiff_def computeDiffWith_def editCost_def js_def classOf_def
      isWordChar_def isSpaceChar_def)




lemma finalText_layDown: "finalText (d\<lparr>cells := layDown s\<rparr>) = s"
proof -
  have "map fst (filter (\<lambda>(c, origin, mark). mark \<noteq> TrackedDeletion)
          (map (\<lambda>(k, c). (c, Some k, Plain)) (enumerate n s))) = s" for n
    by (induction s arbitrary: n) simp_all
  then show ?thesis
    by (simp add: finalText_def layDown_def)
qed



text \<open>
  The reset of the \<^verbatim>\<open>catch\<close> block is never rejected by the flat host, and after it the
  paragraph's text is \<^verbatim>\<open>text1\<close>, in whatever tracking mode the failed batch left the
  document; with tracking off nothing but \<^verbatim>\<open>text1\<close> is left.
\<close>

lemma finalText_cleared:
  "map fst (filter (\<lambda>(c, origin, mark). mark \<noteq> TrackedDeletion)
     (deleteCells mode (\<lambda>x. True) cs)) = []"
  unfolding deleteCells_def by (induction cs) auto

lemma finalText_typed:
  "map fst (filter (\<lambda>(c, origin, mark). mark \<noteq> TrackedDeletion) (typed mode t)) = t"
  unfolding typed_def by (induction t) auto

lemma flat_reset:
  "flatSync [ParagraphClear, ParagraphInsertText text1 LocStart] d
     = (None, d\<lparr>cells := typed (trackingMode d) text1
                            @ deleteCells (trackingMode d) (\<lambda>x. True) (cells d)\<rparr>)"
  "finalText (d\<lparr>cells := typed (trackingMode d) text1
                            @ deleteCells (trackingMode d) (\<lambda>x. True) (cells d)\<rparr>) = text1"
  "trackingMode d = TrackingOff \<Longrightarrow>
   cells (d\<lparr>cells := typed (trackingMode d) text1
                            @ deleteCells (trackingMode d) (\<lambda>x. True) (cells d)\<rparr>)
     = map (\<lambda>c. (c, None, Plain)) text1"
proof -
  show "flatSync [ParagraphClear, ParagraphInsertText text1 LocStart] d
     = (None, d\<lparr>cells := typed (trackingMode d) text1
                            @ deleteCells (trackingMode d) (\<lambda>x. True) (cells d)\<rparr>)"
    by simp
  show "finalText (d\<lparr>cells := typed (trackingMode d) text1
                            @ deleteCells (trackingMode d) (\<lambda>x. True) (cells d)\<rparr>) = text1"
    by (simp add: finalText_def finalText_cleared finalText_typed)
  show "cells (d\<lparr>cells := typed (trackingMode d) text1
                            @ deleteCells (trackingMode d) (\<lambda>x. True) (cells d)\<rparr>)
     = map (\<lambda>c. (c, None, Plain)) text1" if "trackingMode d = TrackingOff"
  proof -
    have "deleteCells TrackingOff (\<lambda>x. True) cs = []" for cs
      unfolding deleteCells_def by (induction cs) auto
    with that show ?thesis
      by (simp add: typed_def)
  qed
qed

text \<open>A primary failure on the flat host: a differ whose Equal text is not the document's.\<close>

lemma flat_fallback:
  "verifyTokenMapStrategy flatHost (\<lambda>original revised. Inr [(0, js ''b'')]) secondary (js ''a'') (js ''b'') d
     = catchBlock flatHost secondary (js ''a'') (js ''b'') (d\<lparr>cells := layDown (js ''a'')\<rparr>)"
proof -
  have "planTokenMap True (flatSearch (js ''a'')) (flatTextRanges (js ''a'')) (0, 0) [(0, js ''b'')]
          = Inl MapLookupFailed"
    by (simp add: planTokenMap_def buildTokenMap_def queueSearches_def assignIndex_def
        flatSearch_def flatTextRanges_def pass1_def pass2_def tokensAfterDeletes_def
        consumeEqual.simps js_def classOf_def isWordChar_def isSpaceChar_def)
  then show ?thesis
    by (simp add: verifyTokenMapStrategy_def flatHost_def finalText_layDown)
qed



end
